theory Spec2Isabelle
  imports Main "HOL-Library.Sublist"
begin

section \<open>The text buffer the engine edits\<close>

text \<open>
  The engine of \<^verbatim>\<open>markdown-editor.ts\<close> works on a CodeMirror 5 document through
  \<^verbatim>\<open>getLine\<close>, \<^verbatim>\<open>getRange\<close>, \<^verbatim>\<open>replaceRange\<close>,
  \<^verbatim>\<open>listSelections\<close> and \<^verbatim>\<open>setSelections\<close>.
  The buffer is an external collaborator of the repository; this section writes its
  documented behaviour down as executable functions: a document is the list of its
  lines, a position is a pair of JavaScript numbers (so \<open>int\<close>: the engine's
  arithmetic can leave the buffer, and the buffer clips what it is given).
  A CodeMirror document always has at least one line.
\<close>

record pos =
  line :: int
  ch :: int

type_synonym doc = "string list"

definition Pos :: "int \<Rightarrow> int \<Rightarrow> pos" where
  "Pos l c = \<lparr>line = l, ch = c\<rparr>"

text \<open>\<^verbatim>\<open>cmp(a, b) = a.line - b.line || a.ch - b.ch\<close>\<close>

definition cmp :: "pos \<Rightarrow> pos \<Rightarrow> int" where
  "cmp a b = (if line a - line b \<noteq> 0 then line a - line b else ch a - ch b)"

definition isLine :: "doc \<Rightarrow> int \<Rightarrow> bool" where
  "isLine d n \<longleftrightarrow> 0 \<le> n \<and> n < int (length d)"

text \<open>\<^verbatim>\<open>cm.getLine(n)\<close>: the text of line \<open>n\<close>, \<^verbatim>\<open>undefined\<close> (here \<open>None\<close>)
  outside the document.\<close>

definition getLine :: "doc \<Rightarrow> int \<Rightarrow> string option" where
  "getLine d n = (if isLine d n then Some (d ! nat n) else None)"

definition lineText :: "doc \<Rightarrow> int \<Rightarrow> string" where
  "lineText d n = (case getLine d n of Some t \<Rightarrow> t | None \<Rightarrow> [])"

definition clipToLen :: "pos \<Rightarrow> int \<Rightarrow> pos" where
  "clipToLen p linelen =
     (if ch p > linelen then Pos (line p) linelen
      else if ch p < 0 then Pos (line p) 0
      else p)"

definition clipPos :: "doc \<Rightarrow> pos \<Rightarrow> pos" where
  "clipPos d p =
     (if line p < 0 then Pos 0 0
      else let last = int (length d) - 1 in
        if line p > last then Pos last (int (length (lineText d last)))
        else clipToLen p (int (length (lineText d (line p)))))"

text \<open>\<^verbatim>\<open>splitLines\<close>: a replacement text is cut at \<^verbatim>\<open>\r\n\<close>, \<^verbatim>\<open>\r\<close> and
  \<^verbatim>\<open>\n\<close>.\<close>

definition LF :: char where
  "LF = CHR 0x0A"

definition CR :: char where
  "CR = CHR 0x0D"

fun splitLines :: "string \<Rightarrow> string list" where
  "splitLines [] = [[]]"
| "splitLines (c # cs) =
     (if c = LF then [] # splitLines cs
      else if c = CR then [] # splitLines (if cs \<noteq> [] \<and> hd cs = LF then tl cs else cs)
      else (case splitLines cs of
              [] \<Rightarrow> [[c]]
            | l # ls \<Rightarrow> (c # l) # ls))"

text \<open>The lines that replace the span between two clipped positions: the text before
  the span on its first line, the new lines, and the text after the span on its last
  line.\<close>

definition glue :: "string \<Rightarrow> string list \<Rightarrow> string \<Rightarrow> string list" where
  "glue pre ts post =
     (case ts of
        [] \<Rightarrow> [pre @ post]
      | [t] \<Rightarrow> [pre @ t @ post]
      | t # ts' \<Rightarrow> (pre @ t) # butlast ts' @ [last ts' @ post])"

definition splice :: "doc \<Rightarrow> pos \<Rightarrow> pos \<Rightarrow> string list \<Rightarrow> doc" where
  "splice d f t ts =
     take (nat (line f)) d
     @ glue (take (nat (ch f)) (lineText d (line f))) ts (drop (nat (ch t)) (lineText d (line t)))
     @ drop (nat (line t) + 1) d"

text \<open>\<^verbatim>\<open>cm.replaceRange(code, from, to)\<close>: both ends are clipped into the document, a
  missing \<^verbatim>\<open>to\<close> means an insertion at \<^verbatim>\<open>from\<close>, and ends given in the wrong order
  are swapped.\<close>

definition replaceRange :: "doc \<Rightarrow> string \<Rightarrow> pos \<Rightarrow> pos option \<Rightarrow> doc" where
  "replaceRange d code from to =
     (let f = clipPos d from;
          t = (case to of None \<Rightarrow> f | Some p \<Rightarrow> clipPos d p)
      in if cmp t f < 0 then splice d t f (splitLines code)
         else splice d f t (splitLines code))"

text \<open>\<^verbatim>\<open>cm.getRange(from, to)\<close>: the text between the clipped positions, lines joined
  by \<^verbatim>\<open>\n\<close>.\<close>

fun joinLines :: "string list \<Rightarrow> string" where
  "joinLines [] = []"
| "joinLines [l] = l"
| "joinLines (l # ls) = l @ LF # joinLines ls"

definition getBetween :: "doc \<Rightarrow> pos \<Rightarrow> pos \<Rightarrow> string list" where
  "getBetween d s e =
     (if line s > line e then []
      else if line s = line e then
        [drop (nat (ch s)) (take (nat (ch e)) (lineText d (line s)))]
      else drop (nat (ch s)) (lineText d (line s))
           # take (nat (line e - line s) - 1) (drop (nat (line s) + 1) d)
           @ [take (nat (ch e)) (lineText d (line e))])"

definition getRange :: "doc \<Rightarrow> pos \<Rightarrow> pos \<Rightarrow> string" where
  "getRange d from to = joinLines (getBetween d (clipPos d from) (clipPos d to))"

section \<open>Selections\<close>

text \<open>
  A CodeMirror \<^verbatim>\<open>Range\<close> holds two \<^verbatim>\<open>Pos\<close> objects, \<^verbatim>\<open>anchor\<close> and
  \<^verbatim>\<open>head\<close>. The engine mutates these objects in place (\<^verbatim>\<open>s.anchor.ch += n\<close>),
  and a caret's two fields are often one and the same object (CodeMirror builds a caret
  as \<^verbatim>\<open>new Range(pos, pos)\<close>, the engine itself writes \<^verbatim>\<open>s.head = s.anchor\<close>, and
  \<^verbatim>\<open>_.cloneDeep\<close> keeps such sharing). So a range is either two separate objects,
  \<open>Range a h\<close>, or one shared object, \<open>Shared p\<close>; an update through either field of
  a shared range is seen through the other.
\<close>

datatype range = Range (anchor: pos) (head: pos) | Shared (anchor: pos)
  where "head (Shared p) = p"

definition updAnchor :: "(pos \<Rightarrow> pos) \<Rightarrow> range \<Rightarrow> range" where
  "updAnchor f r = (case r of Range a h \<Rightarrow> Range (f a) h | Shared p \<Rightarrow> Shared (f p))"

definition updHead :: "(pos \<Rightarrow> pos) \<Rightarrow> range \<Rightarrow> range" where
  "updHead f r = (case r of Range a h \<Rightarrow> Range a (f h) | Shared p \<Rightarrow> Shared (f p))"

text \<open>\<^verbatim>\<open>from()\<close> is \<^verbatim>\<open>minPos(anchor, head) = cmp(anchor, head) < 0 ? anchor : head\<close>
  and \<^verbatim>\<open>to()\<close> is \<^verbatim>\<open>maxPos(anchor, head) = cmp(anchor, head) < 0 ? head : anchor\<close>:
  each returns one of the two objects, not a copy, so an assignment through
  \<^verbatim>\<open>from()\<close> or \<^verbatim>\<open>to()\<close> changes the range.\<close>

definition rangeFrom :: "range \<Rightarrow> pos" where
  "rangeFrom r = (if cmp (anchor r) (head r) < 0 then anchor r else head r)"

definition rangeTo :: "range \<Rightarrow> pos" where
  "rangeTo r = (if cmp (anchor r) (head r) < 0 then head r else anchor r)"

definition updFrom :: "(pos \<Rightarrow> pos) \<Rightarrow> range \<Rightarrow> range" where
  "updFrom f r = (if cmp (anchor r) (head r) < 0 then updAnchor f r else updHead f r)"

definition updTo :: "(pos \<Rightarrow> pos) \<Rightarrow> range \<Rightarrow> range" where
  "updTo f r = (if cmp (anchor r) (head r) < 0 then updHead f r else updAnchor f r)"

definition rangeEmpty :: "range \<Rightarrow> bool" where
  "rangeEmpty r \<longleftrightarrow> line (head r) = line (anchor r) \<and> ch (head r) = ch (anchor r)"

text \<open>\<^verbatim>\<open>s.head = s.anchor\<close> and \<^verbatim>\<open>s.anchor = s.head\<close>\<close>

definition headToAnchor :: "range \<Rightarrow> range" where
  "headToAnchor r = Shared (anchor r)"

definition anchorToHead :: "range \<Rightarrow> range" where
  "anchorToHead r = Shared (head r)"

definition addCh :: "int \<Rightarrow> pos \<Rightarrow> pos" where
  "addCh k p = p\<lparr>ch := ch p + k\<rparr>"

definition addLine :: "int \<Rightarrow> pos \<Rightarrow> pos" where
  "addLine k p = p\<lparr>line := line p + k\<rparr>"

definition setCh :: "int \<Rightarrow> pos \<Rightarrow> pos" where
  "setCh k p = p\<lparr>ch := k\<rparr>"

text \<open>The lines a selection's two ends are on.\<close>

definition rangeLines :: "range \<Rightarrow> int \<times> int" where
  "rangeLines r = (line (anchor r), line (head r))"

text \<open>One call of \<^verbatim>\<open>cm.replaceRange(text, from, to)\<close> as the engine requests it.\<close>

datatype request = Request (reqText: string) (reqFrom: pos) (reqTo: "pos option")

definition applyRequest :: "doc \<Rightarrow> request \<Rightarrow> doc" where
  "applyRequest d r = replaceRange d (reqText r) (reqFrom r) (reqTo r)"

section \<open>Inline token toggling (lib/src/markdown-editor.ts)\<close>

text \<open>
  \<^verbatim>\<open>toggleInlineFormatting(token, altTokens)\<close>. The tokens the public operations pass
  (\<^verbatim>\<open>**\<close>, \<^verbatim>\<open>__\<close>, \<^verbatim>\<open>*\<close>, \<^verbatim>\<open>_\<close>, \<^verbatim>\<open>~~\<close> and the backquote) are matched
  literally by the regular expressions built with \<^verbatim>\<open>escapeRegexChars\<close>, so the search
  for a token at the end of the text before the selection is a suffix test and the search
  at the start of the text after it a prefix test. \<^verbatim>\<open>find\<close> returns the first token that
  matches; the branch \<^verbatim>\<open>if (suffixToken)\<close> is taken when one was found and it is not the
  empty string.
\<close>

definition truthy :: "string option \<Rightarrow> bool" where
  "truthy t = (case t of None \<Rightarrow> False | Some s \<Rightarrow> s \<noteq> [])"

definition suffixEnd :: "pos \<Rightarrow> int \<Rightarrow> string \<Rightarrow> pos" where
  "suffixEnd to endLineLength suffixToken =
     \<lparr>line = line to,
      ch = (if ch to \<le> endLineLength - int (length suffixToken)
            then ch to + int (length suffixToken) else endLineLength)\<rparr>"

definition prefixStart :: "pos \<Rightarrow> string \<Rightarrow> pos" where
  "prefixStart from prefixToken =
     \<lparr>line = line from,
      ch = (if ch from \<ge> int (length prefixToken)
            then ch from - int (length prefixToken) else 0)\<rparr>"

text \<open>The two requests one selection makes of the buffer (suffix first, then prefix) with
  \<^verbatim>\<open>beforeShift\<close> and \<^verbatim>\<open>afterShift\<close>. \<^verbatim>\<open>cm.getLine(to.line).length\<close> throws a
  TypeError when the line does not exist: \<open>None\<close>.\<close>

definition toggleStep ::
  "string \<Rightarrow> string list \<Rightarrow> doc \<Rightarrow> range \<Rightarrow> (request \<times> request \<times> int \<times> int) option" where
  "toggleStep token altTokens d oldSelection =
     (let from = rangeFrom oldSelection; to = rangeTo oldSelection in
      case getLine d (line to) of
        None \<Rightarrow> None
      | Some endLine \<Rightarrow>
          let endLineLength = int (length endLine);
              linePartBefore = getRange d (Pos (line from) 0) from;
              linePartAfter = getRange d to (Pos (line to) endLineLength);
              prefixToken = find (\<lambda>t. suffix t linePartBefore) (token # altTokens);
              suffixToken = find (\<lambda>t. prefix t linePartAfter) (token # altTokens);
              suffixReq = (if truthy suffixToken
                 then Request [] to (Some (suffixEnd to endLineLength (the suffixToken)))
                 else Request token to None);
              afterShift = (if truthy suffixToken then - 1 else 1);
              prefixReq = (if truthy prefixToken
                 then Request [] (prefixStart from (the prefixToken)) (Some from)
                 else Request token from None);
              beforeShift = (if truthy prefixToken then - 1 else 1)
          in Some (suffixReq, prefixReq, beforeShift, afterShift))"

text \<open>"Adjust selections to originally selected characters": the new selection is a
  clone of the old one, changed through \<^verbatim>\<open>to()\<close> and then \<^verbatim>\<open>from()\<close>.\<close>

definition adjustSelection :: "range \<Rightarrow> int \<Rightarrow> range" where
  "adjustSelection oldSelection k =
     (let newSelection =
            (if rangeEmpty oldSelection then headToAnchor oldSelection
             else if line (rangeFrom oldSelection) = line (rangeTo oldSelection)
               then updTo (addCh k) oldSelection
             else oldSelection)
      in updFrom (addCh k) newSelection)"

text \<open>"Adjust all following selections to originally selected characters": the inner
  loop over \<^verbatim>\<open>j > i\<close>, which stops at the first selection whose anchor is not on the
  line of \<^verbatim>\<open>to\<close>.\<close>

definition adjustOne :: "pos \<Rightarrow> pos \<Rightarrow> int \<Rightarrow> int \<Rightarrow> range \<Rightarrow> range" where
  "adjustOne from to b a s =
     (let s1 = (if rangeEmpty s then headToAnchor s
                else let s' = (if line (head s) = line from then updHead (addCh b) s else s)
                     in if line (head s') = line to then updHead (addCh a) s' else s');
          s2 = (if line (anchor s1) = line from then updAnchor (addCh b) s1 else s1)
      in if line (anchor s2) = line to then updAnchor (addCh a) s2 else s2)"

fun adjustFollowing :: "pos \<Rightarrow> pos \<Rightarrow> int \<Rightarrow> int \<Rightarrow> range list \<Rightarrow> range list" where
  "adjustFollowing from to b a [] = []"
| "adjustFollowing from to b a (s # ss) =
     (if line (anchor s) = line to
      then adjustOne from to b a s # adjustFollowing from to b a ss
      else adjustOne from to b a s # ss)"

lemma length_adjustFollowing [simp]:
  "length (adjustFollowing from to b a ss) = length ss"
  by (induction ss) auto

function toggleLoop :: "string \<Rightarrow> string list \<Rightarrow> doc \<Rightarrow> range list \<Rightarrow> (doc \<times> range list) option" where
  "toggleLoop token altTokens d [] = Some (d, [])"
| "toggleLoop token altTokens d (oldSelection # following) =
     (case toggleStep token altTokens d oldSelection of
        None \<Rightarrow> None
      | Some (suffixReq, prefixReq, beforeShift, afterShift) \<Rightarrow>
          let d' = applyRequest (applyRequest d suffixReq) prefixReq;
              k = int (length token);
              newSelection = adjustSelection oldSelection (beforeShift * k);
              following' = adjustFollowing (rangeFrom oldSelection) (rangeTo oldSelection)
                             (beforeShift * k) (afterShift * k) following
          in case toggleLoop token altTokens d' following' of
               None \<Rightarrow> None
             | Some (d'', newSelections) \<Rightarrow> Some (d'', newSelection # newSelections))"
  by pat_completeness auto
termination
  by (relation "measure (\<lambda>(token, altTokens, d, selections). length selections)") auto

text \<open>The result is the buffer after all replacements and the list handed to
  \<^verbatim>\<open>cm.setSelections\<close>.\<close>

definition toggleInlineFormatting ::
  "string \<Rightarrow> string list \<Rightarrow> doc \<Rightarrow> range list \<Rightarrow> (doc \<times> range list) option" where
  "toggleInlineFormatting token altTokens d selections = toggleLoop token altTokens d selections"

text \<open>The calls of \<^verbatim>\<open>cm.replaceRange\<close> one run of the loop makes, in the order it makes
  them, each with the buffer it is made of.\<close>

function toggleRequests ::
  "string \<Rightarrow> string list \<Rightarrow> doc \<Rightarrow> range list \<Rightarrow> (doc \<times> request) list option" where
  "toggleRequests token altTokens d [] = Some []"
| "toggleRequests token altTokens d (oldSelection # following) =
     (case toggleStep token altTokens d oldSelection of
        None \<Rightarrow> None
      | Some (suffixReq, prefixReq, beforeShift, afterShift) \<Rightarrow>
          let d1 = applyRequest d suffixReq;
              d' = applyRequest d1 prefixReq;
              k = int (length token);
              following' = adjustFollowing (rangeFrom oldSelection) (rangeTo oldSelection)
                             (beforeShift * k) (afterShift * k) following
          in case toggleRequests token altTokens d' following' of
               None \<Rightarrow> None
             | Some requests \<Rightarrow> Some ((d, suffixReq) # (d1, prefixReq) # requests))"
  by pat_completeness auto
termination
  by (relation "measure (\<lambda>(token, altTokens, d, selections). length selections)") auto

definition BOLD_TOKENS :: "string list" where
  "BOLD_TOKENS = [''**'', ''__'']"

definition ITALIC_TOKENS :: "string list" where
  "ITALIC_TOKENS = [''*'', ''_'']"

text \<open>\<open>preferred\<close> is \<^verbatim>\<open>options.preferredTokens.bold\<close> (respectively \<^verbatim>\<open>italic\<close>).\<close>

definition toggleBold :: "string \<Rightarrow> doc \<Rightarrow> range list \<Rightarrow> (doc \<times> range list) option" where
  "toggleBold preferred = toggleInlineFormatting preferred (filter (\<lambda>t. t \<noteq> preferred) BOLD_TOKENS)"

definition toggleItalic :: "string \<Rightarrow> doc \<Rightarrow> range list \<Rightarrow> (doc \<times> range list) option" where
  "toggleItalic preferred = toggleInlineFormatting preferred (filter (\<lambda>t. t \<noteq> preferred) ITALIC_TOKENS)"

definition toggleStrikethrough :: "doc \<Rightarrow> range list \<Rightarrow> (doc \<times> range list) option" where
  "toggleStrikethrough = toggleInlineFormatting ''~~'' []"

definition toggleInlineCode :: "doc \<Rightarrow> range list \<Rightarrow> (doc \<times> range list) option" where
  "toggleInlineCode = toggleInlineFormatting ''`'' []"

section \<open>Line-prefix toggling (lib/src/markdown-editor.ts)\<close>

text \<open>
  The patterns the rewrite functions test and replace are all anchored at the start of
  the line. Each is read here as the length of its (greedy) match, \<open>None\<close> when
  \<^verbatim>\<open>search\<close> returns \<open>-1\<close>:
  \<^verbatim>\<open>ORDERED_LIST_PATTERN = /^(\d)+\.(\t| )+/\<close> and
  \<^verbatim>\<open>UNORDERED_LIST_PATTERN = /^(\*|-)(\t| )+/\<close>.
\<close>

definition isDigit :: "char \<Rightarrow> bool" where
  "isDigit c \<longleftrightarrow> c \<in> set ''0123456789''"

definition isBlank :: "char \<Rightarrow> bool" where
  "isBlank c \<longleftrightarrow> c = CHR 0x09 \<or> c = CHR '' ''"

definition matchOrdered :: "string \<Rightarrow> nat option" where
  "matchOrdered s =
     (let ds = takeWhile isDigit s; r = dropWhile isDigit s in
      if ds \<noteq> [] \<and> r \<noteq> [] \<and> hd r = CHR ''.'' \<and> takeWhile isBlank (tl r) \<noteq> []
      then Some (length ds + 1 + length (takeWhile isBlank (tl r)))
      else None)"

definition matchUnordered :: "string \<Rightarrow> nat option" where
  "matchUnordered s =
     (if s \<noteq> [] \<and> (hd s = CHR ''*'' \<or> hd s = CHR ''-'') \<and> takeWhile isBlank (tl s) \<noteq> []
      then Some (1 + length (takeWhile isBlank (tl s)))
      else None)"

text \<open>\<^verbatim>\<open>line.search(/\./)\<close>: the index of the first dot, \<open>-1\<close> without one.\<close>

definition dotPos :: "string \<Rightarrow> int" where
  "dotPos s = (if CHR ''.'' \<in> set s then int (length (takeWhile (\<lambda>c. c \<noteq> CHR ''.'') s)) else - 1)"

text \<open>
  List numbers are JavaScript numbers, that is doubles. The engine reads one from a run of
  digits with unary \<^verbatim>\<open>+\<close>, adds 1 to it and prints it in a template string or by
  \<^verbatim>\<open>listNumber + '. '\<close>; so the numbers it meets are whole and not negative, or
  \<^verbatim>\<open>Infinity\<close>. A finite one is held here by its value, an integer. \<open>decimal\<close> writes
  an integer that is not negative in decimal, \<open>decimalValue\<close> reads a run of digits.
\<close>

definition digitChar :: "nat \<Rightarrow> char" where
  "digitChar k = ''0123456789'' ! k"

function decimal :: "int \<Rightarrow> string" where
  "decimal n = (if n < 10 then [digitChar (nat n)] else decimal (n div 10) @ [digitChar (nat (n mod 10))])"
  by pat_completeness auto
termination
  by (relation "measure nat") auto

declare decimal.simps [simp del]

definition showNat :: "nat \<Rightarrow> string" where
  "showNat n = decimal (int n)"

definition digitValue :: "char \<Rightarrow> nat" where
  "digitValue c = length (takeWhile (\<lambda>x. x \<noteq> c) ''0123456789'')"

definition decimalValue :: "string \<Rightarrow> int" where
  "decimalValue s = foldl (\<lambda>n c. 10 * n + int (digitValue c)) 0 s"

datatype number = Num int | Infinity

text \<open>
  The double nearest to a whole number \<open>n\<close> that is not negative, with ties going to
  the even mantissa. Below \<open>2^53\<close> every whole number is a double. From there on a
  double is a mantissa \<open>q\<close> of 53 bits times \<open>2^e\<close>; the largest one is
  \<open>(2^53 - 1) * 2^971\<close>, and what rounds above it is \<^verbatim>\<open>Infinity\<close>.
\<close>

function bitLength :: "int \<Rightarrow> nat" where
  "bitLength n = (if n \<le> 0 then 0 else Suc (bitLength (n div 2)))"
  by pat_completeness auto
termination
  by (relation "measure nat") auto

declare bitLength.simps [simp del]

definition roundDouble :: "int \<Rightarrow> number" where
  "roundDouble n =
     (if n < 2 ^ 53 then Num n
      else let e = bitLength n - 53;
               q = n div 2 ^ e;
               r = n mod 2 ^ e;
               q' = (if 2 ^ (e - 1) < r \<or> (r = 2 ^ (e - 1) \<and> odd q) then q + 1 else q)
           in if 971 < e \<or> (e = 971 \<and> q' = 2 ^ 53) then Infinity else Num (q' * 2 ^ e))"

text \<open>\<^verbatim>\<open>listNumber + 1\<close> and \<^verbatim>\<open>++listNumber\<close>: the sum is rounded to a double.\<close>

definition plusOne :: "number \<Rightarrow> number" where
  "plusOne x = (case x of Num n \<Rightarrow> roundDouble (n + 1) | Infinity \<Rightarrow> Infinity)"

text \<open>Unary \<^verbatim>\<open>+\<close> on a run of digits: the double nearest to its value. (Beyond twenty
  significant digits the language standard lets an implementation round the twenty-first
  digit away first; the engines in use round the exact value, which is what is written
  here.)\<close>

definition toNumber :: "string \<Rightarrow> number" where
  "toNumber s = roundDouble (decimalValue s)"

text \<open>
  \<^verbatim>\<open>Number::toString\<close>. A whole number below \<open>2^53\<close> is printed with all its digits.
  A larger double is printed by the whole number with the fewest significant digits that
  still reads back as this double (the nearest one if there are two, the even one if both
  are as near): \<open>shortest\<close> looks for it with 1, 2, 3, ... significant digits, among the
  two neighbours of \<open>n\<close> that end in zeros from there on. Up to 21 digits that number
  is written out, a longer one in exponent notation.
\<close>

definition tryDigits :: "int \<Rightarrow> nat \<Rightarrow> int option" where
  "tryDigits n k =
     (let p = 10 ^ (length (decimal n) - k);
          lo = (n div p) * p;
          hi = lo + p;
          okLo = (roundDouble lo = Num n);
          okHi = (roundDouble hi = Num n)
      in if okLo \<and> okHi then
           Some (if n - lo < hi - n then lo
                 else if hi - n < n - lo then hi
                 else if even (n div p) then lo else hi)
         else if okLo then Some lo
         else if okHi then Some hi
         else None)"

function shortest :: "int \<Rightarrow> nat \<Rightarrow> int" where
  "shortest n k =
     (if length (decimal n) \<le> k then n
      else case tryDigits n k of Some v \<Rightarrow> v | None \<Rightarrow> shortest n (k + 1))"
  by pat_completeness auto
termination
  by (relation "measure (\<lambda>(n, k). length (decimal n) - k)") auto

declare shortest.simps [simp del]

definition exponential :: "string \<Rightarrow> string" where
  "exponential digits =
     (case rev (dropWhile (\<lambda>c. c = CHR ''0'') (rev digits)) of
        [] \<Rightarrow> []
      | [c] \<Rightarrow> [c]
      | c # cs \<Rightarrow> c # CHR ''.'' # cs)
     @ ''e+'' @ decimal (int (length digits) - 1)"

definition numberToString :: "number \<Rightarrow> string" where
  "numberToString x =
     (case x of
        Infinity \<Rightarrow> ''Infinity''
      | Num n \<Rightarrow>
          if n < 2 ^ 53 then decimal n
          else let digits = decimal (shortest n 1)
               in if length digits \<le> 21 then digits else exponential digits)"

subsection \<open>The rewrite functions\<close>

text \<open>\<^verbatim>\<open>setHeadingLevel\<close>:
  \<^verbatim>\<open>oldLineContent.replace(/^((#)*( )?)/, '#'.repeat(level) + (level === 0 ? '' : ' '))\<close>\<close>

definition headingToken :: "nat \<Rightarrow> string" where
  "headingToken level = replicate level CHR ''#'' @ (if level = 0 then [] else '' '')"

definition stripHeading :: "string \<Rightarrow> string" where
  "stripHeading s =
     (let r = dropWhile (\<lambda>c. c = CHR ''#'') s in
      if r \<noteq> [] \<and> hd r = CHR '' '' then tl r else r)"

definition headingRewrite :: "nat \<Rightarrow> string \<Rightarrow> string" where
  "headingRewrite level oldLineContent = headingToken level @ stripHeading oldLineContent"

text \<open>\<^verbatim>\<open>toggleQuote\<close>, with the pattern \<^verbatim>\<open>/^>(\t| )*/\<close>\<close>

definition quoteRewrite :: "string \<Rightarrow> string" where
  "quoteRewrite oldLineContent =
     (if oldLineContent \<noteq> [] \<and> hd oldLineContent = CHR ''>''
      then dropWhile isBlank (tl oldLineContent)
      else ''> '' @ oldLineContent)"

text \<open>\<^verbatim>\<open>toggleUnorderedList\<close>; \<open>preferred\<close> is
  \<^verbatim>\<open>options.preferredTokens.unorderedList + ' '\<close>.\<close>

definition unorderedRewrite :: "string \<Rightarrow> string \<Rightarrow> string" where
  "unorderedRewrite preferred oldLineContent =
     (case matchUnordered oldLineContent of
        None \<Rightarrow>
          (case matchOrdered oldLineContent of
             None \<Rightarrow> preferred @ oldLineContent
           | Some n \<Rightarrow> preferred @ drop n oldLineContent)
      | Some n \<Rightarrow> drop n oldLineContent)"

text \<open>\<^verbatim>\<open>processNextLinesOfOrderedList\<close>: the loop over the lines below
  \<^verbatim>\<open>baseLineNumber\<close>, which ends at the end of the document, at an empty line or at
  a line that is no ordered-list item.\<close>

lemma splitLines_single:
  "LF \<notin> set t \<Longrightarrow> CR \<notin> set t \<Longrightarrow> splitLines t = [t]"
  by (induction t) auto

lemma length_replaceRange_in_line:
  assumes "isLine d n" "LF \<notin> set t" "CR \<notin> set t"
  shows "length (replaceRange d t (Pos n a) (Some (Pos n b))) = length d"
proof -
  have n: "0 \<le> n" "nat n < length d"
    using assms(1) by (auto simp: isLine_def)
  have c: "line (clipPos d (Pos n x)) = n" for x
    using n by (auto simp: clipPos_def clipToLen_def Pos_def Let_def)
  show ?thesis
    using n by (simp add: replaceRange_def splice_def glue_def splitLines_single assms c Let_def)
qed

lemma decimal_digits: "set (decimal k) \<subseteq> set ''0123456789''"
proof (induction k rule: decimal.induct)
  case (1 n)
  have d: "m < 10 \<Longrightarrow> digitChar m \<in> set ''0123456789''" for m
    unfolding digitChar_def by (rule nth_mem) simp
  show ?case
  proof (cases "n < 10")
    case True
    then show ?thesis using d [of "nat n"] by (subst decimal.simps) simp
  next
    case False
    have "set (decimal n) = set (decimal (n div 10)) \<union> {digitChar (nat (n mod 10))}"
      using False by (subst decimal.simps) simp
    then show ?thesis using 1 [OF False] d [of "nat (n mod 10)"] by auto
  qed
qed

lemma showNat_digits: "set (showNat k) \<subseteq> set ''0123456789''"
  unfolding showNat_def by (rule decimal_digits)

lemma decimal_no_break: "LF \<notin> set (decimal k)" "CR \<notin> set (decimal k)"
  using decimal_digits [of k] by (auto simp: LF_def CR_def)

lemma showNat_no_break: "LF \<notin> set (showNat k)" "CR \<notin> set (showNat k)"
  unfolding showNat_def by (rule decimal_no_break)+

lemma exponential_no_break:
  assumes "c \<notin> set digits" "c \<noteq> CHR ''.''" "c \<noteq> CHR ''e''" "c \<noteq> CHR ''+''"
    and "c \<notin> set (decimal (int (length digits) - 1))"
  shows "c \<notin> set (exponential digits)"
proof -
  define m where "m = rev (dropWhile (\<lambda>c. c = CHR ''0'') (rev digits))"
  have "x \<in> set m \<Longrightarrow> x \<in> set digits" for x
    unfolding m_def set_rev by (drule set_dropWhileD) simp
  then have m: "c \<notin> set m" using assms(1) by auto
  have "c \<notin> set (case m of [] \<Rightarrow> [] | [x] \<Rightarrow> [x] | x # y # xs \<Rightarrow> x # CHR ''.'' # y # xs)"
  proof (cases m)
    case Nil
    then show ?thesis by simp
  next
    case (Cons x xs)
    then show ?thesis using m assms(2) by (cases xs) simp_all
  qed
  then show ?thesis
    using assms(3,4,5) unfolding exponential_def m_def [symmetric] by simp
qed

lemma numberToString_no_break: "LF \<notin> set (numberToString x)" "CR \<notin> set (numberToString x)"
proof -
  have e: "LF \<notin> set (exponential (decimal n))" "CR \<notin> set (exponential (decimal n))" for n
    by (rule exponential_no_break; (rule decimal_no_break | simp add: LF_def CR_def))+
  have i: "LF \<notin> set ''Infinity''" "CR \<notin> set ''Infinity''"
    by (simp_all add: LF_def CR_def)
  show "LF \<notin> set (numberToString x)"
    using decimal_no_break(1) e(1) i(1)
    by (cases x) (simp_all only: numberToString_def number.case Let_def split: if_split, simp_all)
  show "CR \<notin> set (numberToString x)"
    using decimal_no_break(2) e(2) i(2)
    by (cases x) (simp_all only: numberToString_def number.case Let_def split: if_split, simp_all)
qed

function processLoop :: "doc \<Rightarrow> number \<Rightarrow> int \<Rightarrow> doc" where
  "processLoop d listNumber nextLineNumber =
     (case getLine d nextLineNumber of
        None \<Rightarrow> d
      | Some nextLine \<Rightarrow>
          if nextLine \<noteq> [] \<and> matchOrdered nextLine \<noteq> None
          then processLoop
                 (replaceRange d (numberToString (plusOne listNumber))
                    (Pos nextLineNumber 0) (Some (Pos nextLineNumber (dotPos nextLine))))
                 (plusOne listNumber) (nextLineNumber + 1)
          else d)"
  by pat_completeness auto
termination
proof (relation "measure (\<lambda>(d, listNumber, nextLineNumber). nat (int (length d) - nextLineNumber))")
  show "wf (measure (\<lambda>(d, listNumber, nextLineNumber). nat (int (length d) - nextLineNumber)))"
    by simp
next
  fix d :: doc and listNumber :: number and nextLineNumber :: int and x2 :: string
  assume "getLine d nextLineNumber = Some x2"
  then have l: "isLine d nextLineNumber"
    by (auto simp: getLine_def split: if_splits)
  then have "nextLineNumber < int (length d)"
    by (simp add: isLine_def)
  then show "((replaceRange d (numberToString (plusOne listNumber)) (Pos nextLineNumber 0)
                 (Some (Pos nextLineNumber (dotPos x2))),
               plusOne listNumber, nextLineNumber + 1),
              d, listNumber, nextLineNumber)
             \<in> measure (\<lambda>(d, listNumber, nextLineNumber). nat (int (length d) - nextLineNumber))"
    by (simp add: length_replaceRange_in_line [OF l] numberToString_no_break)
qed

declare processLoop.simps [simp del]

definition processNextLinesOfOrderedList :: "doc \<Rightarrow> int \<Rightarrow> number \<Rightarrow> doc" where
  "processNextLinesOfOrderedList d baseLineNumber baseListNumber =
     processLoop d baseListNumber (baseLineNumber + 1)"

text \<open>A rewrite function gets the buffer, the old line and its number, and returns the
  new line and the buffer as it left it: the one of \<^verbatim>\<open>toggleOrderedList\<close> renumbers the
  lines below before it returns.\<close>

type_synonym replaceFn = "doc \<Rightarrow> string \<Rightarrow> int \<Rightarrow> string \<times> doc"

definition pureFn :: "(string \<Rightarrow> string) \<Rightarrow> replaceFn" where
  "pureFn f d oldLineContent lineNumber = (f oldLineContent, d)"

definition orderedRewrite :: replaceFn where
  "orderedRewrite d oldLineContent lineNumber =
     (case matchOrdered oldLineContent of
        None \<Rightarrow>
          let prevLine = getLine d (lineNumber - 1);
              listNumber =
                (case prevLine of
                   None \<Rightarrow> Num 1
                 | Some p \<Rightarrow>
                     if p = [] \<or> matchOrdered p = None then Num 1
                     else plusOne (toNumber (take (nat (dotPos p)) p)));
              d' = processNextLinesOfOrderedList d lineNumber listNumber;
              numberToken = numberToString listNumber @ ''. ''
          in (case matchUnordered oldLineContent of
                None \<Rightarrow> (numberToken @ oldLineContent, d')
              | Some n \<Rightarrow> (numberToken @ drop n oldLineContent, d'))
      | Some n \<Rightarrow>
          (drop n oldLineContent, processNextLinesOfOrderedList d lineNumber (Num 0)))"

subsection \<open>replaceTokenAtLineStart\<close>

text \<open>The inner loop over the lines of one selection. A line that does not exist makes
  the rewrite function throw a TypeError (each of them starts by calling a method of
  \<^verbatim>\<open>oldLineContent\<close>): \<open>None\<close>.\<close>

function lineLoop :: "replaceFn \<Rightarrow> range \<Rightarrow> doc \<Rightarrow> int \<Rightarrow> int \<Rightarrow> int \<Rightarrow> (doc \<times> int \<times> int) option" where
  "lineLoop replaceFn selection d lineNumber shiftFrom shiftTo =
     (if lineNumber \<le> line (rangeTo selection) then
        (case getLine d lineNumber of
           None \<Rightarrow> None
         | Some oldLineContent \<Rightarrow>
             lineLoop replaceFn selection
               (replaceRange (snd (replaceFn d oldLineContent lineNumber))
                  (fst (replaceFn d oldLineContent lineNumber))
                  (Pos lineNumber 0) (Some (Pos lineNumber (int (length oldLineContent)))))
               (lineNumber + 1)
               (if lineNumber = line (rangeFrom selection)
                then int (length (fst (replaceFn d oldLineContent lineNumber))) - int (length oldLineContent)
                else shiftFrom)
               (if lineNumber = line (rangeTo selection)
                then int (length (fst (replaceFn d oldLineContent lineNumber))) - int (length oldLineContent)
                else shiftTo))
      else Some (d, shiftFrom, shiftTo))"
  by pat_completeness auto
termination
  by (relation "measure (\<lambda>(replaceFn, selection, d, lineNumber, shiftFrom, shiftTo).
        nat (line (rangeTo selection) + 1 - lineNumber))") auto

declare lineLoop.simps [simp del]

text \<open>"Adjust selection boundaries to originally selected boundaries".
  \<^verbatim>\<open>_.isEqual(selection.anchor, selection.from())\<close> compares the two positions by
  value; both calls of \<^verbatim>\<open>selection.empty()\<close> come after the anchor was moved.\<close>

definition adjustBoundaries :: "range \<Rightarrow> int \<Rightarrow> int \<Rightarrow> range" where
  "adjustBoundaries selection shiftFrom shiftTo =
     (if anchor selection = rangeFrom selection then
        let s = updAnchor (addCh shiftFrom) selection
        in if \<not> rangeEmpty s then updHead (addCh shiftTo) s else s
      else
        let s = updAnchor (addCh shiftTo) selection
        in if \<not> rangeEmpty s then updHead (addCh shiftFrom) s else s)"

fun replaceLoop :: "replaceFn \<Rightarrow> doc \<Rightarrow> range list \<Rightarrow> (doc \<times> range list) option" where
  "replaceLoop replaceFn d [] = Some (d, [])"
| "replaceLoop replaceFn d (sel # rest) =
     (case lineLoop replaceFn sel d (line (rangeFrom sel)) 0 0 of
        None \<Rightarrow> None
      | Some (d', shiftFrom, shiftTo) \<Rightarrow>
          (case replaceLoop replaceFn d' rest of
             None \<Rightarrow> None
           | Some (d'', newSelections) \<Rightarrow>
               Some (d'', adjustBoundaries sel shiftFrom shiftTo # newSelections)))"

definition replaceTokenAtLineStart :: "replaceFn \<Rightarrow> doc \<Rightarrow> range list \<Rightarrow> (doc \<times> range list) option" where
  "replaceTokenAtLineStart replaceFn d selections = replaceLoop replaceFn d selections"

definition setHeadingLevel :: "nat \<Rightarrow> doc \<Rightarrow> range list \<Rightarrow> (doc \<times> range list) option" where
  "setHeadingLevel level = replaceTokenAtLineStart (pureFn (headingRewrite level))"

definition toggleQuote :: "doc \<Rightarrow> range list \<Rightarrow> (doc \<times> range list) option" where
  "toggleQuote = replaceTokenAtLineStart (pureFn quoteRewrite)"

text \<open>\<open>unorderedList\<close> is \<^verbatim>\<open>options.preferredTokens.unorderedList\<close>.\<close>

definition toggleUnorderedList :: "string \<Rightarrow> doc \<Rightarrow> range list \<Rightarrow> (doc \<times> range list) option" where
  "toggleUnorderedList unorderedList =
     replaceTokenAtLineStart (pureFn (unorderedRewrite (unorderedList @ '' '')))"

definition toggleOrderedList :: "doc \<Rightarrow> range list \<Rightarrow> (doc \<times> range list) option" where
  "toggleOrderedList = replaceTokenAtLineStart orderedRewrite"

section \<open>Block insertion (lib/src/markdown-editor.ts)\<close>

subsection \<open>insertCodeBlock\<close>

text \<open>\<open>preferredToken\<close> is \<^verbatim>\<open>options.preferredTokens.codeBlock\<close>. The step for one
  selection gives the buffer, the new selection and \<^verbatim>\<open>currentShift\<close>.\<close>

definition codeBlockStep :: "string \<Rightarrow> doc \<Rightarrow> range \<Rightarrow> doc \<times> range \<times> int" where
  "codeBlockStep preferredToken d oldSelection =
     (let atLineStart = \<not> ch (rangeFrom oldSelection) > 0;
          currentShift = (if atLineStart then 3 else 4);
          startToken = (if atLineStart then preferredToken @ [LF] else LF # preferredToken @ [LF]);
          d1 = replaceRange d (LF # preferredToken @ [LF]) (rangeTo oldSelection) None;
          d2 = replaceRange d1 startToken (rangeFrom oldSelection) None;
          offset = (if line (rangeFrom oldSelection) = line (rangeTo oldSelection)
                    then ch (rangeFrom oldSelection) else 0);
          s1 = (if \<not> rangeEmpty oldSelection
                then updTo (addCh (- offset)) (updTo (addLine (currentShift - 2)) oldSelection)
                else anchorToHead oldSelection);
          s2 = updFrom (addLine (currentShift - 2)) s1;
          newSelection = updFrom (setCh 0) s2
      in (d2, newSelection, currentShift))"

text \<open>"Adjust all following selections to originally selected characters"\<close>

definition adjustCode :: "pos \<Rightarrow> int \<Rightarrow> range \<Rightarrow> range" where
  "adjustCode oldTo currentShift s =
     (let remainderIndex = ch oldTo;
          s1 = (if line (rangeFrom s) = line oldTo then updFrom (addCh (- remainderIndex)) s else s);
          s2 = (if line (rangeTo s1) = line oldTo then updTo (addCh (- remainderIndex)) s1 else s1);
          s3 = (if \<not> rangeEmpty s2 then updTo (addLine currentShift) s2 else s2)
      in updFrom (addLine currentShift) s3)"

function codeBlockLoop :: "string \<Rightarrow> doc \<Rightarrow> range list \<Rightarrow> doc \<times> range list" where
  "codeBlockLoop preferredToken d [] = (d, [])"
| "codeBlockLoop preferredToken d (oldSelection # following) =
     (case codeBlockStep preferredToken d oldSelection of
        (d', newSelection, currentShift) \<Rightarrow>
          (case codeBlockLoop preferredToken d'
                  (map (adjustCode (rangeTo oldSelection) currentShift) following) of
             (d'', newSelections) \<Rightarrow> (d'', newSelection # newSelections)))"
  by pat_completeness auto
termination
  by (relation "measure (\<lambda>(preferredToken, d, selections). length selections)") auto

definition insertCodeBlock :: "string \<Rightarrow> doc \<Rightarrow> range list \<Rightarrow> doc \<times> range list" where
  "insertCodeBlock preferredToken d selections = codeBlockLoop preferredToken d selections"

subsection \<open>insertInlineTemplate\<close>

text \<open>\<open>beforePart\<close> and \<open>afterPart\<close> are the parameters \<^verbatim>\<open>before\<close> and \<^verbatim>\<open>after\<close>.\<close>

definition templateSelection :: "range \<Rightarrow> int \<Rightarrow> range" where
  "templateSelection oldSelection k =
     (let newSelection =
            (if rangeEmpty oldSelection then headToAnchor oldSelection
             else updTo (addCh k) oldSelection)
      in updFrom (addCh k) newSelection)"

function templateLoop :: "string \<Rightarrow> string \<Rightarrow> doc \<Rightarrow> range list \<Rightarrow> doc \<times> range list" where
  "templateLoop beforePart afterPart d [] = (d, [])"
| "templateLoop beforePart afterPart d (oldSelection # following) =
     (let d' = replaceRange (replaceRange d afterPart (rangeTo oldSelection) None)
                 beforePart (rangeFrom oldSelection) None;
          newSelection = templateSelection oldSelection (int (length beforePart));
          following' = adjustFollowing (rangeFrom oldSelection) (rangeTo oldSelection)
                         (int (length beforePart)) (int (length afterPart)) following
      in case templateLoop beforePart afterPart d' following' of
           (d'', newSelections) \<Rightarrow> (d'', newSelection # newSelections))"
  by pat_completeness auto
termination
  by (relation "measure (\<lambda>(beforePart, afterPart, d, selections). length selections)") auto

definition insertInlineTemplate :: "string \<Rightarrow> string \<Rightarrow> doc \<Rightarrow> range list \<Rightarrow> doc \<times> range list" where
  "insertInlineTemplate beforePart afterPart d selections = templateLoop beforePart afterPart d selections"

subsection \<open>insertBlockTemplateBelow\<close>

text \<open>The loop keeps two variables across the selections: \<^verbatim>\<open>currentShift\<close> and
  \<^verbatim>\<open>template\<close> itself, which \<^verbatim>\<open>template = '\n' + template\<close> reassigns. Nothing is
  handed to \<^verbatim>\<open>setSelections\<close>; the result is the buffer. The function is modelled
  for the default \<^verbatim>\<open>lineSeparator\<close>, the only one its callers use.\<close>

definition countLF :: "string \<Rightarrow> int" where
  "countLF t = int (length (filter (\<lambda>c. c = LF) t))"

fun blockLoop :: "doc \<Rightarrow> string \<Rightarrow> int \<Rightarrow> range list \<Rightarrow> doc option" where
  "blockLoop d template currentShift [] = Some d"
| "blockLoop d template currentShift (oldSelection # following) =
     (let s = (if rangeEmpty oldSelection then headToAnchor oldSelection
               else updTo (addLine currentShift) oldSelection);
          newSelection = updFrom (addLine currentShift) s;
          toLineNumber = line (rangeTo newSelection)
      in case getLine d toLineNumber of
           None \<Rightarrow> None
         | Some toLine \<Rightarrow>
             let toLineEnd = Pos toLineNumber (int (length toLine));
                 template' = (if length toLine > 0 then LF # template else template)
             in blockLoop (replaceRange d template' toLineEnd None) template'
                  (currentShift + countLF template') following)"

definition insertBlockTemplateBelow :: "string \<Rightarrow> doc \<Rightarrow> range list \<Rightarrow> doc option" where
  "insertBlockTemplateBelow template d selections = blockLoop d template 0 selections"

text \<open>\<open>preferred\<close> is \<^verbatim>\<open>options.preferredTokens.horizontalLine\<close>.\<close>

definition insertHorizontalLine :: "string \<Rightarrow> doc \<Rightarrow> range list \<Rightarrow> doc option" where
  "insertHorizontalLine preferred = insertBlockTemplateBelow (LF # preferred @ [LF, LF])"

text \<open>\<^verbatim>\<open>insertTable(rows, columns)\<close> with a table option that gives the two counts.\<close>

definition tableTemplate :: "nat \<Rightarrow> nat \<Rightarrow> string" where
  "tableTemplate rows columns =
     LF # concat (map (\<lambda>c. ''| Column '' @ showNat c @ '' '') [1..<columns + 1]) @ ''|'' @ [LF]
     @ concat (replicate columns ''| -------- '') @ ''|'' @ [LF]
     @ concat (replicate rows (concat (replicate columns ''| Content  '') @ ''|'' @ [LF]))
     @ [LF]"

definition insertTable :: "nat \<Rightarrow> nat \<Rightarrow> doc \<Rightarrow> range list \<Rightarrow> doc option" where
  "insertTable rows columns = insertBlockTemplateBelow (tableTemplate rows columns)"

section \<open>The earlier edition (src/markdown-editor.ts)\<close>

text \<open>
  The second file of the repository holds an earlier edition of the same engine, with the
  tokens written into the code. Its functions are translated here under the prefix
  \<open>src\<close>. The patterns and the per-line replacements of \<^verbatim>\<open>setHeadingLevel\<close> and
  \<^verbatim>\<open>toggleQuote\<close> are the same expressions in both files.
\<close>

subsection \<open>toggleInlineFormatting(op)\<close>

text \<open>This edition keeps one running \<^verbatim>\<open>currentShift\<close> for all selections and adds
  \<^verbatim>\<open>currentShift * op.length\<close> to \<^verbatim>\<open>selection.anchor.ch\<close> and to
  \<^verbatim>\<open>selection.head.ch\<close> before it reads the selection (twice to the same object when
  the two are shared). It tests for the token by reading the clamped ranges beside the
  selection.\<close>

definition srcToggleStep ::
  "string \<Rightarrow> doc \<Rightarrow> range \<Rightarrow> (request \<times> request \<times> bool \<times> bool) option" where
  "srcToggleStep op d selection =
     (let from = rangeFrom selection; to = rangeTo selection in
      case getLine d (line to) of
        None \<Rightarrow> None
      | Some endLine \<Rightarrow>
          let endLineLength = int (length endLine);
              pStart = prefixStart from op;
              sEnd = suffixEnd to endLineLength op;
              hasPrefixToken = (getRange d pStart from = op);
              hasSuffixToken = (getRange d to sEnd = op);
              suffixReq = (if hasSuffixToken then Request [] to (Some sEnd) else Request op to None);
              prefixReq = (if hasPrefixToken then Request [] pStart (Some from) else Request op from None)
          in Some (suffixReq, prefixReq, hasPrefixToken, hasSuffixToken))"

definition srcAdjustSelection :: "range \<Rightarrow> int \<Rightarrow> range" where
  "srcAdjustSelection selection k =
     (let s = updAnchor (addCh k) selection
      in if \<not> rangeEmpty s then updHead (addCh k) s else s)"

fun srcToggleLoop :: "string \<Rightarrow> doc \<Rightarrow> int \<Rightarrow> range list \<Rightarrow> (doc \<times> range list) option" where
  "srcToggleLoop op d currentShift [] = Some (d, [])"
| "srcToggleLoop op d currentShift (sel # rest) =
     (let k = int (length op);
          selection = updHead (addCh (currentShift * k)) (updAnchor (addCh (currentShift * k)) sel)
      in case srcToggleStep op d selection of
           None \<Rightarrow> None
         | Some (suffixReq, prefixReq, hasPrefixToken, hasSuffixToken) \<Rightarrow>
             let d' = applyRequest (applyRequest d suffixReq) prefixReq;
                 currentShift' = currentShift + (if hasSuffixToken then - 1 else 1)
                                   + (if hasPrefixToken then - 1 else 1);
                 newSelection = srcAdjustSelection selection (if hasPrefixToken then - k else k)
             in case srcToggleLoop op d' currentShift' rest of
                  None \<Rightarrow> None
                | Some (d'', newSelections) \<Rightarrow> Some (d'', newSelection # newSelections))"

definition srcToggleInlineFormatting :: "string \<Rightarrow> doc \<Rightarrow> range list \<Rightarrow> (doc \<times> range list) option" where
  "srcToggleInlineFormatting op d selections = srcToggleLoop op d 0 selections"

definition srcToggleBold :: "doc \<Rightarrow> range list \<Rightarrow> (doc \<times> range list) option" where
  "srcToggleBold = srcToggleInlineFormatting ''**''"

definition srcToggleItalic :: "doc \<Rightarrow> range list \<Rightarrow> (doc \<times> range list) option" where
  "srcToggleItalic = srcToggleInlineFormatting ''*''"

definition srcToggleStrikethrough :: "doc \<Rightarrow> range list \<Rightarrow> (doc \<times> range list) option" where
  "srcToggleStrikethrough = srcToggleInlineFormatting ''~~''"

definition srcToggleInlineCode :: "doc \<Rightarrow> range list \<Rightarrow> (doc \<times> range list) option" where
  "srcToggleInlineCode = srcToggleInlineFormatting ''`''"

subsection \<open>Line prefixes\<close>

definition srcUnorderedRewrite :: "string \<Rightarrow> string" where
  "srcUnorderedRewrite oldLineContent =
     (case matchUnordered oldLineContent of
        None \<Rightarrow>
          (let token = ''- '' in
           case matchOrdered oldLineContent of
             None \<Rightarrow> token @ oldLineContent
           | Some n \<Rightarrow> token @ drop n oldLineContent)
      | Some n \<Rightarrow> drop n oldLineContent)"

function srcProcessLoop :: "doc \<Rightarrow> number \<Rightarrow> int \<Rightarrow> doc" where
  "srcProcessLoop d listNumber nextLineNumber =
     (case getLine d nextLineNumber of
        None \<Rightarrow> d
      | Some nextLine \<Rightarrow>
          if nextLine \<noteq> [] \<and> matchOrdered nextLine \<noteq> None
          then srcProcessLoop
                 (replaceRange d (numberToString (plusOne listNumber))
                    (Pos nextLineNumber 0) (Some (Pos nextLineNumber (dotPos nextLine))))
                 (plusOne listNumber) (nextLineNumber + 1)
          else d)"
  by pat_completeness auto
termination
proof (relation "measure (\<lambda>(d, listNumber, nextLineNumber). nat (int (length d) - nextLineNumber))")
  show "wf (measure (\<lambda>(d, listNumber, nextLineNumber). nat (int (length d) - nextLineNumber)))"
    by simp
next
  fix d :: doc and listNumber :: number and nextLineNumber :: int and x2 :: string
  assume "getLine d nextLineNumber = Some x2"
  then have l: "isLine d nextLineNumber"
    by (auto simp: getLine_def split: if_splits)
  then have "nextLineNumber < int (length d)"
    by (simp add: isLine_def)
  then show "((replaceRange d (numberToString (plusOne listNumber)) (Pos nextLineNumber 0)
                 (Some (Pos nextLineNumber (dotPos x2))),
               plusOne listNumber, nextLineNumber + 1),
              d, listNumber, nextLineNumber)
             \<in> measure (\<lambda>(d, listNumber, nextLineNumber). nat (int (length d) - nextLineNumber))"
    by (simp add: length_replaceRange_in_line [OF l] numberToString_no_break)
qed

declare srcProcessLoop.simps [simp del]

definition srcProcessNextLinesOfOrderedList :: "doc \<Rightarrow> int \<Rightarrow> number \<Rightarrow> doc" where
  "srcProcessNextLinesOfOrderedList d baseLineNumber baseListNumber =
     srcProcessLoop d baseListNumber (baseLineNumber + 1)"

definition srcOrderedRewrite :: replaceFn where
  "srcOrderedRewrite d oldLineContent lineNumber =
     (case matchOrdered oldLineContent of
        None \<Rightarrow>
          let prevLine = getLine d (lineNumber - 1);
              listNumber =
                (case prevLine of
                   None \<Rightarrow> Num 1
                 | Some p \<Rightarrow>
                     if p = [] \<or> matchOrdered p = None then Num 1
                     else plusOne (toNumber (take (nat (dotPos p)) p)));
              d' = srcProcessNextLinesOfOrderedList d lineNumber listNumber;
              numberToken = numberToString listNumber @ ''. ''
          in (case matchUnordered oldLineContent of
                None \<Rightarrow> (numberToken @ oldLineContent, d')
              | Some n \<Rightarrow> (numberToken @ drop n oldLineContent, d'))
      | Some n \<Rightarrow>
          (drop n oldLineContent, srcProcessNextLinesOfOrderedList d lineNumber (Num 0)))"

function srcLineLoop :: "replaceFn \<Rightarrow> range \<Rightarrow> doc \<Rightarrow> int \<Rightarrow> int \<Rightarrow> int \<Rightarrow> (doc \<times> int \<times> int) option" where
  "srcLineLoop replaceFn selection d lineNumber shiftFrom shiftTo =
     (if lineNumber \<le> line (rangeTo selection) then
        (case getLine d lineNumber of
           None \<Rightarrow> None
         | Some oldLineContent \<Rightarrow>
             srcLineLoop replaceFn selection
               (replaceRange (snd (replaceFn d oldLineContent lineNumber))
                  (fst (replaceFn d oldLineContent lineNumber))
                  (Pos lineNumber 0) (Some (Pos lineNumber (int (length oldLineContent)))))
               (lineNumber + 1)
               (if lineNumber = line (rangeFrom selection)
                then int (length (fst (replaceFn d oldLineContent lineNumber))) - int (length oldLineContent)
                else shiftFrom)
               (if lineNumber = line (rangeTo selection)
                then int (length (fst (replaceFn d oldLineContent lineNumber))) - int (length oldLineContent)
                else shiftTo))
      else Some (d, shiftFrom, shiftTo))"
  by pat_completeness auto
termination
  by (relation "measure (\<lambda>(replaceFn, selection, d, lineNumber, shiftFrom, shiftTo).
        nat (line (rangeTo selection) + 1 - lineNumber))") auto

declare srcLineLoop.simps [simp del]

definition srcAdjustBoundaries :: "range \<Rightarrow> int \<Rightarrow> int \<Rightarrow> range" where
  "srcAdjustBoundaries selection shiftFrom shiftTo =
     (if anchor selection = rangeFrom selection then
        let s = updAnchor (addCh shiftFrom) selection
        in if \<not> rangeEmpty s then updHead (addCh shiftTo) s else s
      else
        let s = updAnchor (addCh shiftTo) selection
        in if \<not> rangeEmpty s then updHead (addCh shiftFrom) s else s)"

fun srcReplaceLoop :: "replaceFn \<Rightarrow> doc \<Rightarrow> range list \<Rightarrow> (doc \<times> range list) option" where
  "srcReplaceLoop replaceFn d [] = Some (d, [])"
| "srcReplaceLoop replaceFn d (sel # rest) =
     (case srcLineLoop replaceFn sel d (line (rangeFrom sel)) 0 0 of
        None \<Rightarrow> None
      | Some (d', shiftFrom, shiftTo) \<Rightarrow>
          (case srcReplaceLoop replaceFn d' rest of
             None \<Rightarrow> None
           | Some (d'', newSelections) \<Rightarrow>
               Some (d'', srcAdjustBoundaries sel shiftFrom shiftTo # newSelections)))"

definition srcReplaceTokenAtLineStart :: "replaceFn \<Rightarrow> doc \<Rightarrow> range list \<Rightarrow> (doc \<times> range list) option" where
  "srcReplaceTokenAtLineStart replaceFn d selections = srcReplaceLoop replaceFn d selections"

definition srcSetHeadingLevel :: "nat \<Rightarrow> doc \<Rightarrow> range list \<Rightarrow> (doc \<times> range list) option" where
  "srcSetHeadingLevel level = srcReplaceTokenAtLineStart (pureFn (headingRewrite level))"

definition srcToggleQuote :: "doc \<Rightarrow> range list \<Rightarrow> (doc \<times> range list) option" where
  "srcToggleQuote = srcReplaceTokenAtLineStart (pureFn quoteRewrite)"

definition srcToggleUnorderedList :: "doc \<Rightarrow> range list \<Rightarrow> (doc \<times> range list) option" where
  "srcToggleUnorderedList = srcReplaceTokenAtLineStart (pureFn srcUnorderedRewrite)"

definition srcToggleOrderedList :: "doc \<Rightarrow> range list \<Rightarrow> (doc \<times> range list) option" where
  "srcToggleOrderedList = srcReplaceTokenAtLineStart srcOrderedRewrite"

subsection \<open>insertCodeBlock\<close>

definition srcCodeBlockStep :: "doc \<Rightarrow> range \<Rightarrow> doc \<times> range \<times> int" where
  "srcCodeBlockStep d oldSelection =
     (let atLineStart = \<not> ch (rangeFrom oldSelection) > 0;
          currentShift = (if atLineStart then 3 else 4);
          startToken = (if atLineStart then ''```'' @ [LF] else LF # ''```'' @ [LF]);
          d1 = replaceRange d (LF # ''```'' @ [LF]) (rangeTo oldSelection) None;
          d2 = replaceRange d1 startToken (rangeFrom oldSelection) None;
          offset = (if line (rangeFrom oldSelection) = line (rangeTo oldSelection)
                    then ch (rangeFrom oldSelection) else 0);
          s1 = (if \<not> rangeEmpty oldSelection
                then updTo (addCh (- offset)) (updTo (addLine (currentShift - 2)) oldSelection)
                else anchorToHead oldSelection);
          s2 = updFrom (addLine (currentShift - 2)) s1;
          newSelection = updFrom (setCh 0) s2
      in (d2, newSelection, currentShift))"

definition srcAdjustCode :: "pos \<Rightarrow> int \<Rightarrow> range \<Rightarrow> range" where
  "srcAdjustCode oldTo currentShift s =
     (let remainderIndex = ch oldTo;
          s1 = (if line (rangeFrom s) = line oldTo then updFrom (addCh (- remainderIndex)) s else s);
          s2 = (if line (rangeTo s1) = line oldTo then updTo (addCh (- remainderIndex)) s1 else s1);
          s3 = (if \<not> rangeEmpty s2 then updTo (addLine currentShift) s2 else s2)
      in updFrom (addLine currentShift) s3)"

function srcCodeBlockLoop :: "doc \<Rightarrow> range list \<Rightarrow> doc \<times> range list" where
  "srcCodeBlockLoop d [] = (d, [])"
| "srcCodeBlockLoop d (oldSelection # following) =
     (case srcCodeBlockStep d oldSelection of
        (d', newSelection, currentShift) \<Rightarrow>
          (case srcCodeBlockLoop d'
                  (map (srcAdjustCode (rangeTo oldSelection) currentShift) following) of
             (d'', newSelections) \<Rightarrow> (d'', newSelection # newSelections)))"
  by pat_completeness auto
termination
  by (relation "measure (\<lambda>(d, selections). length selections)") auto

definition srcInsertCodeBlock :: "doc \<Rightarrow> range list \<Rightarrow> doc \<times> range list" where
  "srcInsertCodeBlock d selections = srcCodeBlockLoop d selections"

section \<open>Installing selections\<close>

text \<open>
  \<^verbatim>\<open>cm.setSelections(ranges)\<close> clips every position into the buffer (a position that
  is already inside stays the same object, so a shared caret stays shared), sorts the
  ranges by their start (a stable sort) and merges ranges that overlap or touch.
  \<^verbatim>\<open>cm.listSelections()\<close> returns the result. The engine never passes an empty list.
\<close>

definition clipRange :: "doc \<Rightarrow> range \<Rightarrow> range" where
  "clipRange d r =
     (case r of
        Range a h \<Rightarrow> Range (clipPos d a) (clipPos d h)
      | Shared p \<Rightarrow> if clipPos d p = p then Shared p else Range (clipPos d p) (clipPos d p))"

fun insortRange :: "range \<Rightarrow> range list \<Rightarrow> range list" where
  "insortRange x [] = [x]"
| "insortRange x (y # ys) =
     (if cmp (rangeFrom x) (rangeFrom y) \<le> 0 then x # y # ys else y # insortRange x ys)"

definition fromIsHead :: "range \<Rightarrow> bool" where
  "fromIsHead r = (case r of Shared p \<Rightarrow> True | Range a h \<Rightarrow> \<not> cmp a h < 0)"

definition mergeTwo :: "range \<Rightarrow> range \<Rightarrow> range" where
  "mergeTwo prev cur =
     (let from = (if cmp (rangeFrom prev) (rangeFrom cur) < 0 then rangeFrom prev else rangeFrom cur);
          to = (if cmp (rangeTo prev) (rangeTo cur) < 0 then rangeTo cur else rangeTo prev);
          inv = (if rangeEmpty prev then fromIsHead cur else fromIsHead prev)
      in if inv then Range to from else Range from to)"

fun mergeRanges :: "range list \<Rightarrow> range list" where
  "mergeRanges (prev # cur # rest) =
     (if cmp (rangeTo prev) (rangeFrom cur) \<ge> 0
      then mergeRanges (mergeTwo prev cur # rest)
      else prev # mergeRanges (cur # rest))"
| "mergeRanges rs = rs"

definition setSelections :: "doc \<Rightarrow> range list \<Rightarrow> range list" where
  "setSelections d ranges = mergeRanges (foldr insortRange (map (clipRange d) ranges) [])"

section \<open>What a selection denotes\<close>

text \<open>The text a selection covers in a buffer, as \<^verbatim>\<open>cm.getRange(s.from(), s.to())\<close>
  reads it (the buffer clips both ends, as it does when the selection is installed).\<close>

definition selectedText :: "doc \<Rightarrow> range \<Rightarrow> string" where
  "selectedText d s = getRange d (rangeFrom s) (rangeTo s)"


section \<open>Inline toggling and the selected text\<close>

text \<open>
  Claim C1: an inline toggle leaves every selection denoting the substring it denoted
  before. The code does not: when the selected text is wrapped in the token and is not
  longer than the token, the unwrap moves \<^verbatim>\<open>newSelection.to()\<close> left past the other
  end, so the following \<^verbatim>\<open>newSelection.from()\<close> is the same object again and is moved
  a second time. With the line \<^verbatim>\<open>**a**xyz\<close> and the \<open>a\<close> selected from left to right,
  \<^verbatim>\<open>toggleBold\<close> leaves the buffer \<^verbatim>\<open>axyz\<close> and hands over the selection from
  column 2 back to column -1, which denotes \<^verbatim>\<open>ax\<close>, not \<^verbatim>\<open>a\<close>.
\<close>

theorem toggleBold_unwrap_short_selection:
  "selectedText [''**a**xyz''] (Range (Pos 0 2) (Pos 0 3)) = ''a''
   \<and> toggleBold ''**'' [''**a**xyz''] [Range (Pos 0 2) (Pos 0 3)]
       = Some ([''axyz''], [Range (Pos 0 2) (Pos 0 (- 1))])
   \<and> selectedText [''axyz''] (Range (Pos 0 2) (Pos 0 (- 1))) = ''ax''"
  by code_simp

section \<open>Block-below insertion with several selections\<close>

text \<open>
  Claim C3: every selection gets the template right below its end line, with exactly one
  extra leading newline if and only if that line is not empty. The loop of
  \<^verbatim>\<open>insertBlockTemplateBelow\<close> prepends the newline to the variable \<^verbatim>\<open>template\<close>
  itself, so the newline added for one selection is still there for the next ones: with
  carets on the lines \<open>a\<close> and \<open>b\<close>, the rule below \<open>a\<close> comes after one empty
  line, the rule below \<open>b\<close> after two. (The second caret is found on its line: the
  shift of four lines is right.)
\<close>

theorem insertHorizontalLine_two_carets:
  "insertHorizontalLine ''---'' [''a'', ''b''] [Shared (Pos 0 0), Shared (Pos 1 0)]
     = Some [''a'', [], ''---'', [], [], ''b'', [], [], ''---'', [], []]"
  by code_simp

section \<open>Positions inside the buffer\<close>

text \<open>The positions \<^verbatim>\<open>cm.listSelections()\<close> returns lie inside the buffer: on a line
  that exists, between its start and its end. The buffer leaves such a position as it is
  when it clips.\<close>

definition validPos :: "doc \<Rightarrow> pos \<Rightarrow> bool" where
  "validPos d p \<longleftrightarrow> isLine d (line p) \<and> 0 \<le> ch p \<and> ch p \<le> int (length (lineText d (line p)))"

definition validRange :: "doc \<Rightarrow> range \<Rightarrow> bool" where
  "validRange d r \<longleftrightarrow> validPos d (anchor r) \<and> validPos d (head r)"

lemma lineText_nth: "isLine d n \<Longrightarrow> lineText d n = d ! nat n"
  by (simp add: lineText_def getLine_def)

lemma getLine_Some: "isLine d n \<Longrightarrow> getLine d n = Some (lineText d n)"
  by (simp add: lineText_def getLine_def)

lemma clipPos_valid: "validPos d p \<Longrightarrow> clipPos d p = p"
  by (auto simp: validPos_def clipPos_def clipToLen_def isLine_def Let_def)



lemma getRange_in_line:
  assumes "validPos d p" "validPos d q" "line p = line q"
  shows "getRange d p q = drop (nat (ch p)) (take (nat (ch q)) (lineText d (line p)))"
  using assms by (simp add: getRange_def clipPos_valid getBetween_def)

section \<open>The list handed to setSelections\<close>

lemma toggleLoop_length:
  "toggleLoop token altTokens d selections = Some (d', newSelections)
   \<Longrightarrow> length newSelections = length selections"
proof (induction token altTokens d selections arbitrary: d' newSelections rule: toggleLoop.induct)
  case (1 token altTokens d)
  then show ?case by simp
next
  case (2 token altTokens d oldSelection following)
  from "2.prems" obtain sReq pReq b a where
    st: "toggleStep token altTokens d oldSelection = Some (sReq, pReq, b, a)"
    by (auto split: option.splits)
  from "2.prems" st obtain d1 out1 where
    rec: "toggleLoop token altTokens (applyRequest (applyRequest d sReq) pReq)
            (adjustFollowing (rangeFrom oldSelection) (rangeTo oldSelection)
               (b * int (length token)) (a * int (length token)) following) = Some (d1, out1)"
    and out: "newSelections = adjustSelection oldSelection (b * int (length token)) # out1"
    by (auto simp: Let_def split: option.splits)
  from "2.IH" [OF st refl refl refl refl refl refl refl rec] out show ?case
    by simp
qed

lemma adjustFollowing_take:
  "adjustFollowing from to b a (take n ss) = take n (adjustFollowing from to b a ss)"
proof (induction ss arbitrary: n)
  case Nil
  then show ?case by simp
next
  case (Cons s ss)
  then show ?case by (cases n) auto
qed

lemma toggleLoop_take:
  "toggleLoop token altTokens d selections = Some (d', newSelections)
   \<Longrightarrow> \<exists>d''. toggleLoop token altTokens d (take n selections) = Some (d'', take n newSelections)"
proof (induction token altTokens d selections arbitrary: d' newSelections n rule: toggleLoop.induct)
  case (1 token altTokens d)
  then show ?case by simp
next
  case (2 token altTokens d oldSelection following)
  show ?case
  proof (cases n)
    case 0
    then show ?thesis by simp
  next
    case (Suc m)
    from "2.prems" obtain sReq pReq b a where
      st: "toggleStep token altTokens d oldSelection = Some (sReq, pReq, b, a)"
      by (auto split: option.splits)
    from "2.prems" st obtain d1 out1 where
      rec: "toggleLoop token altTokens (applyRequest (applyRequest d sReq) pReq)
              (adjustFollowing (rangeFrom oldSelection) (rangeTo oldSelection)
                 (b * int (length token)) (a * int (length token)) following) = Some (d1, out1)"
      and out: "newSelections = adjustSelection oldSelection (b * int (length token)) # out1"
      by (auto simp: Let_def split: option.splits)
    from "2.IH" [OF st refl refl refl refl refl refl refl rec, of m]
    obtain d2 where "toggleLoop token altTokens (applyRequest (applyRequest d sReq) pReq)
        (take m (adjustFollowing (rangeFrom oldSelection) (rangeTo oldSelection)
                 (b * int (length token)) (a * int (length token)) following)) = Some (d2, take m out1)"
      by blast
    then show ?thesis
      using st out Suc by (simp add: adjustFollowing_take Let_def)
  qed
qed

lemma replaceLoop_length:
  "replaceLoop replaceFn d selections = Some (d', newSelections)
   \<Longrightarrow> length newSelections = length selections"
  by (induction selections arbitrary: d d' newSelections) (auto split: option.splits prod.splits)

lemma replaceLoop_take:
  "replaceLoop replaceFn d selections = Some (d', newSelections)
   \<Longrightarrow> \<exists>d''. replaceLoop replaceFn d (take n selections) = Some (d'', take n newSelections)"
proof (induction selections arbitrary: d d' newSelections n)
  case Nil
  then show ?case by simp
next
  case (Cons sel rest)
  show ?case
  proof (cases n)
    case 0
    then show ?thesis by simp
  next
    case (Suc m)
    from Cons.prems obtain d1 sf st d2 out where
      l: "lineLoop replaceFn sel d (line (rangeFrom sel)) 0 0 = Some (d1, sf, st)"
      and r: "replaceLoop replaceFn d1 rest = Some (d2, out)"
      and o: "newSelections = adjustBoundaries sel sf st # out"
      by (auto split: option.splits prod.splits)
    from Cons.IH [OF r, of m] obtain d3 where
      "replaceLoop replaceFn d1 (take m rest) = Some (d3, take m out)" by blast
    then show ?thesis using l o Suc by simp
  qed
qed

lemma codeBlockLoop_length:
  "length (snd (codeBlockLoop preferredToken d selections)) = length selections"
proof (induction preferredToken d selections rule: codeBlockLoop.induct)
  case (1 preferredToken d)
  then show ?case by simp
next
  case (2 preferredToken d oldSelection following)
  obtain d1 new cs where st: "codeBlockStep preferredToken d oldSelection = (d1, new, cs)"
    by (cases "codeBlockStep preferredToken d oldSelection") auto
  let ?f = "map (adjustCode (rangeTo oldSelection) cs) following"
  obtain d2 out2 where a: "codeBlockLoop preferredToken d1 ?f = (d2, out2)"
    by (cases "codeBlockLoop preferredToken d1 ?f") auto
  from "2.IH" [OF st [symmetric] refl] a st show ?case
    by simp
qed

lemma codeBlockLoop_take:
  "snd (codeBlockLoop preferredToken d (take n selections))
   = take n (snd (codeBlockLoop preferredToken d selections))"
proof (induction preferredToken d selections arbitrary: n rule: codeBlockLoop.induct)
  case (1 preferredToken d)
  then show ?case by simp
next
  case (2 preferredToken d oldSelection following)
  show ?case
  proof (cases n)
    case 0
    then show ?thesis by simp
  next
    case (Suc m)
    obtain d1 new cs where st: "codeBlockStep preferredToken d oldSelection = (d1, new, cs)"
      by (cases "codeBlockStep preferredToken d oldSelection") auto
    let ?f = "map (adjustCode (rangeTo oldSelection) cs) following"
    obtain d2 out2 where a: "codeBlockLoop preferredToken d1 ?f = (d2, out2)"
      by (cases "codeBlockLoop preferredToken d1 ?f") auto
    obtain d3 out3 where b: "codeBlockLoop preferredToken d1 (take m ?f) = (d3, out3)"
      by (cases "codeBlockLoop preferredToken d1 (take m ?f)") auto
    from "2.IH" [OF st [symmetric] refl, of m] a b have "out3 = take m out2"
      by (simp add: take_map)
    then show ?thesis
      using st a b Suc by (simp add: take_map)
  qed
qed

lemma templateLoop_length:
  "length (snd (templateLoop beforePart afterPart d selections)) = length selections"
proof (induction beforePart afterPart d selections rule: templateLoop.induct)
  case (1 beforePart afterPart d)
  then show ?case by simp
next
  case (2 beforePart afterPart d oldSelection following)
  let ?d = "replaceRange (replaceRange d afterPart (rangeTo oldSelection) None)
               beforePart (rangeFrom oldSelection) None"
  let ?f = "adjustFollowing (rangeFrom oldSelection) (rangeTo oldSelection)
                       (int (length beforePart)) (int (length afterPart)) following"
  obtain d2 out2 where a: "templateLoop beforePart afterPart ?d ?f = (d2, out2)"
    by (cases "templateLoop beforePart afterPart ?d ?f") auto
  from "2.IH" [OF refl refl refl] a show ?case
    by (simp add: Let_def)
qed

lemma templateLoop_take:
  "snd (templateLoop beforePart afterPart d (take n selections))
   = take n (snd (templateLoop beforePart afterPart d selections))"
proof (induction beforePart afterPart d selections arbitrary: n rule: templateLoop.induct)
  case (1 beforePart afterPart d)
  then show ?case by simp
next
  case (2 beforePart afterPart d oldSelection following)
  show ?case
  proof (cases n)
    case 0
    then show ?thesis by simp
  next
    case (Suc m)
    let ?d = "replaceRange (replaceRange d afterPart (rangeTo oldSelection) None)
                 beforePart (rangeFrom oldSelection) None"
    let ?f = "adjustFollowing (rangeFrom oldSelection) (rangeTo oldSelection)
                         (int (length beforePart)) (int (length afterPart)) following"
    obtain d2 out2 where a: "templateLoop beforePart afterPart ?d ?f = (d2, out2)"
      by (cases "templateLoop beforePart afterPart ?d ?f") auto
    obtain d3 out3 where b: "templateLoop beforePart afterPart ?d (take m ?f) = (d3, out3)"
      by (cases "templateLoop beforePart afterPart ?d (take m ?f)") auto
    from "2.IH" [OF refl refl refl, of m] a b have "out3 = take m out2"
      by simp
    then show ?thesis
      using a b Suc by (simp add: adjustFollowing_take Let_def)
  qed
qed

text \<open>The lines of the selections handed over.\<close>

lemma rangeLines_upd [simp]:
  "rangeLines (updAnchor (addCh k) r) = rangeLines r"
  "rangeLines (updHead (addCh k) r) = rangeLines r"
  "rangeLines (updFrom (addCh k) r) = rangeLines r"
  "rangeLines (updTo (addCh k) r) = rangeLines r"
  by (cases r; simp add: rangeLines_def updAnchor_def updHead_def updFrom_def updTo_def addCh_def)+

lemma rangeLines_headToAnchor [simp]:
  "rangeEmpty r \<Longrightarrow> rangeLines (headToAnchor r) = rangeLines r"
  by (simp add: rangeLines_def headToAnchor_def rangeEmpty_def)

lemma adjustSelection_lines [simp]: "rangeLines (adjustSelection s k) = rangeLines s"
  by (simp add: adjustSelection_def)

lemma templateSelection_lines [simp]: "rangeLines (templateSelection s k) = rangeLines s"
  by (simp add: templateSelection_def)

lemma adjustBoundaries_lines [simp]: "rangeLines (adjustBoundaries s x y) = rangeLines s"
  by (simp add: adjustBoundaries_def Let_def)

lemma adjustOne_lines [simp]: "rangeLines (adjustOne from to b a s) = rangeLines s"
  by (simp add: adjustOne_def Let_def)

lemma adjustFollowing_lines [simp]:
  "map rangeLines (adjustFollowing from to b a ss) = map rangeLines ss"
  by (induction ss) simp_all

lemma toggleLoop_lines:
  "toggleLoop token altTokens d selections = Some (d', newSelections)
   \<Longrightarrow> map rangeLines newSelections = map rangeLines selections"
proof (induction token altTokens d selections arbitrary: d' newSelections rule: toggleLoop.induct)
  case (1 token altTokens d)
  then show ?case by simp
next
  case (2 token altTokens d oldSelection following)
  from "2.prems" obtain sReq pReq b a where
    st: "toggleStep token altTokens d oldSelection = Some (sReq, pReq, b, a)"
    by (auto split: option.splits)
  from "2.prems" st obtain d1 out1 where
    rec: "toggleLoop token altTokens (applyRequest (applyRequest d sReq) pReq)
            (adjustFollowing (rangeFrom oldSelection) (rangeTo oldSelection)
               (b * int (length token)) (a * int (length token)) following) = Some (d1, out1)"
    and out: "newSelections = adjustSelection oldSelection (b * int (length token)) # out1"
    by (auto simp: Let_def split: option.splits)
  from "2.IH" [OF st refl refl refl refl refl refl refl rec] out show ?case
    by simp
qed

lemma replaceLoop_lines:
  "replaceLoop replaceFn d selections = Some (d', newSelections)
   \<Longrightarrow> map rangeLines newSelections = map rangeLines selections"
  by (induction selections arbitrary: d d' newSelections) (auto split: option.splits prod.splits)

lemma templateLoop_lines:
  "map rangeLines (snd (templateLoop beforePart afterPart d selections)) = map rangeLines selections"
proof (induction beforePart afterPart d selections rule: templateLoop.induct)
  case (1 beforePart afterPart d)
  then show ?case by simp
next
  case (2 beforePart afterPart d oldSelection following)
  let ?d = "replaceRange (replaceRange d afterPart (rangeTo oldSelection) None)
               beforePart (rangeFrom oldSelection) None"
  let ?f = "adjustFollowing (rangeFrom oldSelection) (rangeTo oldSelection)
                       (int (length beforePart)) (int (length afterPart)) following"
  obtain d2 out2 where a: "templateLoop beforePart afterPart ?d ?f = (d2, out2)"
    by (cases "templateLoop beforePart afterPart ?d ?f") auto
  from "2.IH" [OF refl refl refl] a show ?case
    by (simp add: Let_def)
qed


lemmas upd_defs = updFrom_def updTo_def updAnchor_def updHead_def rangeEmpty_def cmp_def
  addCh_def addLine_def setCh_def

lemma head_line_setCh [simp]: "line (head (updFrom (setCh c) r)) = line (head r)"
  by (cases r) (simp_all add: upd_defs)

lemma head_line_addCh [simp]:
  "line (head (updFrom (addCh c) r)) = line (head r)"
  "line (head (updTo (addCh c) r)) = line (head r)"
  by (cases r; simp add: upd_defs)+

lemma rangeEmpty_Shared [simp]:
  "rangeEmpty (Shared p)"
  by (simp add: rangeEmpty_def)

lemma head_line_both:
  "0 < c \<Longrightarrow> \<not> rangeEmpty r \<Longrightarrow>
   line (head (updFrom (addLine c) (updTo (addLine c) r))) = line (head r) + c"
  by (cases r) (auto simp: upd_defs)

lemma head_line_both_ch:
  "0 < c \<Longrightarrow> \<not> rangeEmpty r \<Longrightarrow>
   line (head (updFrom (addLine c) (updTo (addCh x) (updTo (addLine c) r)))) = line (head r) + c"
  by (cases r) (auto simp: upd_defs)

lemma head_line_empty:
  "rangeEmpty r \<Longrightarrow> line (head (updFrom (addLine c) r)) = line (head r) + c"
  by (cases r) (auto simp: upd_defs)

lemma adjustCode_head:
  assumes "0 < cs"
  shows "line (head (adjustCode p cs s)) = line (head s) + cs"
proof -
  define s1 where "s1 = (if line (rangeFrom s) = line p then updFrom (addCh (- ch p)) s else s)"
  define s2 where "s2 = (if line (rangeTo s1) = line p then updTo (addCh (- ch p)) s1 else s1)"
  have l: "line (head s2) = line (head s)"
    by (simp add: s2_def s1_def)
  have "adjustCode p cs s
      = updFrom (addLine cs) (if \<not> rangeEmpty s2 then updTo (addLine cs) s2 else s2)"
    by (simp add: adjustCode_def s1_def s2_def Let_def)
  then show ?thesis
    using head_line_both [OF assms, of s2] head_line_empty [of s2 cs] l by (cases "rangeEmpty s2") simp_all
qed

lemma codeBlockStep_head:
  assumes "codeBlockStep t d s = (d', new, cs)"
  shows "(cs = 3 \<or> cs = 4) \<and> line (head new) = line (head s) + cs - 2"
proof -
  have cs: "cs = (if \<not> ch (rangeFrom s) > 0 then 3 else 4)"
    using assms by (simp add: codeBlockStep_def Let_def)
  then have c: "0 < cs - 2" by (simp split: if_splits)
  define off where "off = (if line (rangeFrom s) = line (rangeTo s) then ch (rangeFrom s) else 0)"
  have new: "new = updFrom (setCh 0) (updFrom (addLine (cs - 2))
      (if \<not> rangeEmpty s then updTo (addCh (- off)) (updTo (addLine (cs - 2)) s)
       else anchorToHead s))"
    using assms by (auto simp add: codeBlockStep_def Let_def off_def cs)
  have "line (head new) = line (head s) + (cs - 2)"
  proof (cases "rangeEmpty s")
    case True
    then show ?thesis by (simp add: new anchorToHead_def upd_defs)
  next
    case False
    then show ?thesis using head_line_both_ch [OF c False, of "- off"] by (simp add: new)
  qed
  then show ?thesis using cs by (simp split: if_splits)
qed

lemma codeBlockLoop_head_lines:
  "i < length selections \<Longrightarrow>
   line (head (selections ! i)) + 3 * int i + 1 \<le> line (head (snd (codeBlockLoop t d selections) ! i))
   \<and> line (head (snd (codeBlockLoop t d selections) ! i)) \<le> line (head (selections ! i)) + 4 * int i + 2"
proof (induction t d selections arbitrary: i rule: codeBlockLoop.induct)
  case (1 preferredToken d)
  then show ?case by simp
next
  case (2 preferredToken d oldSelection following)
  obtain d1 new cs where st: "codeBlockStep preferredToken d oldSelection = (d1, new, cs)"
    by (cases "codeBlockStep preferredToken d oldSelection") auto
  note h = codeBlockStep_head [OF st]
  let ?f = "map (adjustCode (rangeTo oldSelection) cs) following"
  obtain d2 out2 where a: "codeBlockLoop preferredToken d1 ?f = (d2, out2)"
    by (cases "codeBlockLoop preferredToken d1 ?f") auto
  have out: "snd (codeBlockLoop preferredToken d (oldSelection # following)) = new # out2"
    using st a by simp
  show ?case
  proof (cases i)
    case 0
    show ?thesis unfolding out using 0 h by auto
  next
    case (Suc j)
    with "2.prems" have j: "j < length ?f" by simp
    from "2.IH" [OF st [symmetric] refl j] a
    have ih: "line (head (?f ! j)) + 3 * int j + 1 \<le> line (head (out2 ! j))"
      "line (head (out2 ! j)) \<le> line (head (?f ! j)) + 4 * int j + 2"
      by simp_all
    have cs: "0 < cs" using h by auto
    have "line (head (?f ! j)) = line (head (following ! j)) + cs"
      using j by (simp add: adjustCode_head [OF cs])
    then show ?thesis unfolding out using ih h Suc by auto
  qed
qed


text \<open>
  Claim C10: every selection-rewriting operation installs a list as long as the list it
  read, whose \<open>i\<close>-th element is derived from the \<open>i\<close>-th selection. What the code
  does is this. It hands \<^verbatim>\<open>setSelections\<close> a list as long as the list it read. The
  \<open>i\<close>-th element is the \<open>i\<close>-th selection moved: inline toggling, line-prefix
  replacement and template wrapping change columns only, so both ends stay on their lines;
  \<^verbatim>\<open>insertCodeBlock\<close> moves the head down by the lines of the fences, three or four for
  each selection before it and one or two for its own opening fence. Later selections do
  not count for earlier ones: run on the first \<open>n\<close> selections only, an operation hands
  over the first \<open>n\<close> elements of what it hands over for the whole list. (Inline
  toggling and line-prefix replacement hand over nothing when they throw on a selection
  outside the buffer; the other two never throw.) The buffer then installs the list with
  the selections that overlap or touch merged into one.
\<close>

theorem selections_kept_in_number_and_order:
  "(toggleInlineFormatting token altTokens d selections = Some (d1, out1) \<longrightarrow>
      length out1 = length selections
      \<and> map rangeLines out1 = map rangeLines selections
      \<and> (\<exists>d'. toggleInlineFormatting token altTokens d (take n selections) = Some (d', take n out1)))
   \<and> (replaceTokenAtLineStart replaceFn d selections = Some (d2, out2) \<longrightarrow>
      length out2 = length selections
      \<and> map rangeLines out2 = map rangeLines selections
      \<and> (\<exists>d'. replaceTokenAtLineStart replaceFn d (take n selections) = Some (d', take n out2)))
   \<and> length (snd (insertCodeBlock preferredToken d selections)) = length selections
   \<and> (\<forall>i<length selections.
          line (head (selections ! i)) + 3 * int i + 1
            \<le> line (head (snd (insertCodeBlock preferredToken d selections) ! i))
          \<and> line (head (snd (insertCodeBlock preferredToken d selections) ! i))
            \<le> line (head (selections ! i)) + 4 * int i + 2)
   \<and> snd (insertCodeBlock preferredToken d (take n selections))
       = take n (snd (insertCodeBlock preferredToken d selections))
   \<and> length (snd (insertInlineTemplate beforePart afterPart d selections)) = length selections
   \<and> map rangeLines (snd (insertInlineTemplate beforePart afterPart d selections))
       = map rangeLines selections
   \<and> snd (insertInlineTemplate beforePart afterPart d (take n selections))
       = take n (snd (insertInlineTemplate beforePart afterPart d selections))"
  unfolding toggleInlineFormatting_def replaceTokenAtLineStart_def insertCodeBlock_def
    insertInlineTemplate_def
  by (intro conjI impI allI toggleLoop_take replaceLoop_take codeBlockLoop_length codeBlockLoop_take
      templateLoop_length templateLoop_take templateLoop_lines
      codeBlockLoop_head_lines [THEN conjunct1] codeBlockLoop_head_lines [THEN conjunct2])
     (erule toggleLoop_length replaceLoop_length toggleLoop_lines replaceLoop_lines | assumption)+

text \<open>The theorem at a caret and a selection on two lines.\<close>

theorem selections_kept_witness:
  "toggleInlineFormatting ''~~'' [] [''ab'', ''c''] [Shared (Pos 0 1), Range (Pos 1 0) (Pos 1 1)]
     = Some ([''a~~~~b'', ''~~c~~''], [Shared (Pos 0 3), Range (Pos 1 2) (Pos 1 3)])
   \<and> length [Shared (Pos 0 3), Range (Pos 1 2) (Pos 1 3)]
       = length [Shared (Pos 0 1), Range (Pos 1 0) (Pos 1 1)]
   \<and> map rangeLines [Shared (Pos 0 3), Range (Pos 1 2) (Pos 1 3)]
       = map rangeLines [Shared (Pos 0 1), Range (Pos 1 0) (Pos 1 1)]
   \<and> (\<exists>d'. toggleInlineFormatting ''~~'' [] [''ab'', ''c'']
              (take 1 [Shared (Pos 0 1), Range (Pos 1 0) (Pos 1 1)])
            = Some (d', take 1 [Shared (Pos 0 3), Range (Pos 1 2) (Pos 1 3)]))
   \<and> replaceTokenAtLineStart (pureFn quoteRewrite) [''ab'', ''c'']
        [Shared (Pos 0 1), Range (Pos 1 0) (Pos 1 1)]
     = Some ([''> ab'', ''> c''], [Shared (Pos 0 3), Range (Pos 1 2) (Pos 1 3)])
   \<and> (1::nat) < length [Shared (Pos 0 1), Range (Pos 1 0) (Pos 1 1)]
   \<and> line (head ([Shared (Pos 0 1), Range (Pos 1 0) (Pos 1 1)] ! 1)) + 3 * int 1 + 1
       \<le> line (head (snd (insertCodeBlock ''```'' [''ab'', ''c'']
                             [Shared (Pos 0 1), Range (Pos 1 0) (Pos 1 1)]) ! 1))
   \<and> insertCodeBlock ''```'' [''ab'', ''c''] [Shared (Pos 0 1), Range (Pos 1 0) (Pos 1 1)]
     = ([''a'', ''```'', [], ''```'', ''b'', ''```'', ''c'', ''```'', []],
        [Shared (Pos 2 0), Range (Pos 6 0) (Pos 6 1)])"
proof -
  have a: "toggleInlineFormatting ''~~'' [] [''ab'', ''c''] [Shared (Pos 0 1), Range (Pos 1 0) (Pos 1 1)]
     = Some ([''a~~~~b'', ''~~c~~''], [Shared (Pos 0 3), Range (Pos 1 2) (Pos 1 3)])"
    by code_simp
  have b: "replaceTokenAtLineStart (pureFn quoteRewrite) [''ab'', ''c'']
        [Shared (Pos 0 1), Range (Pos 1 0) (Pos 1 1)]
     = Some ([''> ab'', ''> c''], [Shared (Pos 0 3), Range (Pos 1 2) (Pos 1 3)])"
    by code_simp
  have c: "(1::nat) < length [Shared (Pos 0 1), Range (Pos 1 0) (Pos 1 1)]"
    by simp
  have e: "insertCodeBlock ''```'' [''ab'', ''c''] [Shared (Pos 0 1), Range (Pos 1 0) (Pos 1 1)]
     = ([''a'', ''```'', [], ''```'', ''b'', ''```'', ''c'', ''```'', []],
        [Shared (Pos 2 0), Range (Pos 6 0) (Pos 6 1)])"
    by code_simp
  from selections_kept_in_number_and_order
    [of "''~~''" "[]" "[''ab'', ''c'']" "[Shared (Pos 0 1), Range (Pos 1 0) (Pos 1 1)]"
        "[''a~~~~b'', ''~~c~~'']" "[Shared (Pos 0 3), Range (Pos 1 2) (Pos 1 3)]" 1
        "pureFn quoteRewrite" "[''> ab'', ''> c'']" "[Shared (Pos 0 3), Range (Pos 1 2) (Pos 1 3)]"
        "''```''"]
    a b c e
  show ?thesis by blast
qed

text \<open>Claim C10 as it was written fails for the list that is installed: with carets at
  both ends of the line \<^verbatim>\<open>abcd\<close>, \<^verbatim>\<open>toggleQuote\<close> adds the quote marker for the first
  caret and takes it off again for the second, hands over two carets at column 2, and the
  buffer installs one.\<close>

theorem toggleQuote_two_carets_on_a_line:
  "toggleQuote [''abcd''] [Shared (Pos 0 0), Shared (Pos 0 4)]
     = Some ([''abcd''], [Shared (Pos 0 2), Shared (Pos 0 2)])
   \<and> setSelections [''abcd''] [Shared (Pos 0 2), Shared (Pos 0 2)] = [Range (Pos 0 2) (Pos 0 2)]
   \<and> length (setSelections [''abcd''] [Shared (Pos 0 2), Shared (Pos 0 2)]) = 1
   \<and> length [Shared (Pos 0 0), Shared (Pos 0 4)] = 2
   \<and> validRange [''abcd''] (Shared (Pos 0 0)) \<and> validRange [''abcd''] (Shared (Pos 0 4))"
  by code_simp

section \<open>Buffers and the loop over the lines of a selection\<close>

text \<open>The lines of a CodeMirror document hold no line break (the buffer cuts every text
  it is given at the breaks), and there is at least one line.\<close>

definition noBreak :: "string \<Rightarrow> bool" where
  "noBreak t \<longleftrightarrow> LF \<notin> set t \<and> CR \<notin> set t"

definition properDoc :: "doc \<Rightarrow> bool" where
  "properDoc d \<longleftrightarrow> d \<noteq> [] \<and> list_all noBreak d"

lemma validPos_Pos [simp]:
  "validPos d (Pos n c) \<longleftrightarrow> isLine d n \<and> 0 \<le> c \<and> c \<le> int (length (lineText d n))"
  by (simp add: validPos_def Pos_def)

lemma Pos_sel [simp]: "line (Pos n c) = n" "ch (Pos n c) = c"
  by (simp_all add: Pos_def)

lemma replaceRange_line:
  assumes "isLine d n" "noBreak t" "0 \<le> a" "a \<le> b" "b \<le> int (length (lineText d n))"
  shows "replaceRange d t (Pos n a) (Some (Pos n b))
         = d[nat n := take (nat a) (lineText d n) @ t @ drop (nat b) (lineText d n)]"
proof -
  have n: "nat n < length d"
    using assms(1) by (auto simp: isLine_def)
  have v: "clipPos d (Pos n a) = Pos n a" "clipPos d (Pos n b) = Pos n b"
    using assms by (auto intro: clipPos_valid)
  show ?thesis
    using n assms(2,3,4)
    by (simp add: replaceRange_def v splice_def glue_def splitLines_single
        noBreak_def cmp_def upd_conv_take_nth_drop)
qed

lemma replaceRange_whole_line:
  assumes "isLine d n" "noBreak t"
  shows "replaceRange d t (Pos n 0) (Some (Pos n (int (length (lineText d n))))) = d[nat n := t]"
  using replaceRange_line [OF assms, of 0 "int (length (lineText d n))"] by simp

lemma lineLoop_pure:
  assumes f: "\<And>l. noBreak l \<Longrightarrow> noBreak (f l)"
  shows "list_all noBreak d \<Longrightarrow> 0 \<le> n \<Longrightarrow> line (rangeTo sel) < int (length d)
    \<Longrightarrow> m = nat (line (rangeTo sel) + 1 - n)
    \<Longrightarrow> \<exists>sf' st'. lineLoop (pureFn f) sel d n sf st
          = Some (take (nat n) d @ map f (take m (drop (nat n) d)) @ drop (nat n + m) d, sf', st')"
proof (induction m arbitrary: d n sf st)
  case 0
  then have "\<not> n \<le> line (rangeTo sel)" by simp
  then show ?case
    by (subst lineLoop.simps) simp
next
  case (Suc m)
  let ?to = "line (rangeTo sel)"
  from Suc.prems have le: "n \<le> ?to" by simp
  with Suc.prems have il: "isLine d n" by (simp add: isLine_def)
  then have nl: "nat n < length d" by (auto simp: isLine_def)
  let ?old = "lineText d n"
  have old: "?old = d ! nat n" using il by (rule lineText_nth)
  have nb: "noBreak ?old"
    using Suc.prems(1) nl old by (simp add: list_all_length)
  let ?d2 = "d[nat n := f ?old]"
  have rr: "replaceRange d (f ?old) (Pos n 0) (Some (Pos n (int (length ?old)))) = ?d2"
    using il f [OF nb] by (rule replaceRange_whole_line)
  have nb2: "list_all noBreak ?d2"
    using Suc.prems(1) f [OF nb] set_update_subset_insert [of d "nat n" "f ?old"]
    by (auto simp: list_all_iff)
  have "m = nat (?to + 1 - (n + 1))" using Suc.prems by simp
  from Suc.IH [OF nb2 _ _ this] Suc.prems(2,3)
  obtain sf' st' where ih: "lineLoop (pureFn f) sel ?d2 (n + 1)
      (if n = line (rangeFrom sel) then int (length (f ?old)) - int (length ?old) else sf)
      (if n = ?to then int (length (f ?old)) - int (length ?old) else st)
      = Some (take (nat (n + 1)) ?d2 @ map f (take m (drop (nat (n + 1)) ?d2)) @ drop (nat (n + 1) + m) ?d2,
              sf', st')"
    by (metis add_nonneg_nonneg length_list_update zero_le_one)
  have n1: "nat (n + 1) = Suc (nat n)" using Suc.prems(2) by simp
  have e: "take (nat (n + 1)) ?d2 @ map f (take m (drop (nat (n + 1)) ?d2)) @ drop (nat (n + 1) + m) ?d2
         = take (nat n) d @ map f (take (Suc m) (drop (nat n) d)) @ drop (nat n + Suc m) d"
    using nl old
    by (simp add: n1 take_Suc_conv_app_nth Cons_nth_drop_Suc [symmetric])
  have step: "lineLoop (pureFn f) sel d n sf st
      = lineLoop (pureFn f) sel ?d2 (n + 1)
          (if n = line (rangeFrom sel) then int (length (f ?old)) - int (length ?old) else sf)
          (if n = ?to then int (length (f ?old)) - int (length ?old) else st)"
    by (subst lineLoop.simps) (simp only: le if_True getLine_Some [OF il] option.case pureFn_def fst_conv snd_conv rr)
  show ?case
    unfolding step by (intro exI) (rule ih [unfolded e])
qed

lemma validRange_lines:
  assumes "validRange d sel"
  shows "0 \<le> line (rangeFrom sel)" "line (rangeFrom sel) \<le> line (rangeTo sel)"
    "line (rangeTo sel) < int (length d)"
proof -
  have a: "0 \<le> line (anchor sel)" "line (anchor sel) < int (length d)"
    and h: "0 \<le> line (head sel)" "line (head sel) < int (length d)"
    using assms by (simp_all add: validRange_def validPos_def isLine_def)
  show "0 \<le> line (rangeFrom sel)" using a h by (simp add: rangeFrom_def)
  show "line (rangeTo sel) < int (length d)" using a h by (simp add: rangeTo_def)
  show "line (rangeFrom sel) \<le> line (rangeTo sel)"
    by (cases "line (anchor sel) = line (head sel)") (auto simp: rangeFrom_def rangeTo_def cmp_def)
qed

lemma suffix_stripHeading: "suffix (stripHeading l) l"
proof -
  let ?r = "dropWhile (\<lambda>c. c = CHR ''#'') l"
  have r: "suffix ?r l" by (rule suffix_dropWhile)
  have "suffix (tl ?r) ?r" by (rule suffix_tl)
  then have t: "suffix (tl ?r) l" using r by (rule suffix_order.trans)
  show ?thesis
  proof (cases "?r \<noteq> [] \<and> hd ?r = CHR '' ''")
    case True
    then have "stripHeading l = tl ?r" unfolding stripHeading_def Let_def by (rule if_P)
    then show ?thesis using t by (rule ssubst)
  next
    case False
    then have "stripHeading l = ?r" unfolding stripHeading_def Let_def by (rule if_not_P)
    then show ?thesis using r by (rule ssubst)
  qed
qed

lemma noBreak_suffix: "suffix s l \<Longrightarrow> noBreak l \<Longrightarrow> noBreak s"
  unfolding noBreak_def using set_mono_suffix by blast

lemma noBreak_append: "noBreak (s @ t) \<longleftrightarrow> noBreak s \<and> noBreak t"
  unfolding noBreak_def by auto

lemma noBreak_headingToken: "noBreak (headingToken level)"
  unfolding noBreak_def headingToken_def LF_def CR_def by simp

lemma headingRewrite_noBreak: "noBreak l \<Longrightarrow> noBreak (headingRewrite level l)"
  unfolding headingRewrite_def noBreak_append
  using noBreak_headingToken noBreak_suffix [OF suffix_stripHeading] by blast

lemma stripHeading_shape:
  "\<exists>k sp. l = replicate k CHR ''#'' @ sp @ stripHeading l
     \<and> (sp = '' '' \<or> sp = [] \<and> (stripHeading l = []
          \<or> hd (stripHeading l) \<noteq> CHR ''#'' \<and> hd (stripHeading l) \<noteq> CHR '' ''))"
proof -
  let ?P = "\<lambda>c. c = CHR ''#''"
  let ?r = "dropWhile ?P l"
  have "\<forall>y\<in>set (takeWhile ?P l). y = CHR ''#''"
    by (auto dest: set_takeWhileD)
  then have tw: "replicate (length (takeWhile ?P l)) CHR ''#'' = takeWhile ?P l"
    by (rule replicate_length_same)
  have l: "l = replicate (length (takeWhile ?P l)) CHR ''#'' @ ?r"
    using takeWhile_dropWhile_id [of ?P l] tw by simp
  show ?thesis
  proof (cases "?r \<noteq> [] \<and> hd ?r = CHR '' ''")
    case True
    then have "?r = '' '' @ stripHeading l"
      by (cases ?r) (auto simp: stripHeading_def)
    with l have "l = replicate (length (takeWhile ?P l)) CHR ''#'' @ '' '' @ stripHeading l"
      by simp
    then show ?thesis by blast
  next
    case False
    then have s: "stripHeading l = ?r" by (auto simp: stripHeading_def Let_def)
    have "?r = [] \<or> hd ?r \<noteq> CHR ''#''"
      using hd_dropWhile [of ?P l] by auto
    with s have "stripHeading l = [] \<or> hd (stripHeading l) \<noteq> CHR ''#'' \<and> hd (stripHeading l) \<noteq> CHR '' ''"
      using False by auto
    moreover from l s have "l = replicate (length (takeWhile ?P l)) CHR ''#'' @ [] @ stripHeading l"
      by simp
    ultimately show ?thesis by blast
  qed
qed

section \<open>Heading levels\<close>

text \<open>The rewrite as claim C7 words it, for comparison: at most six \<open>#\<close> are taken off
  the start of the line, then one space if one follows.\<close>

definition specStripHeading :: "string \<Rightarrow> string" where
  "specStripHeading s =
     (let r = drop (min 6 (length (takeWhile (\<lambda>c. c = CHR ''#'') s))) s in
      if r \<noteq> [] \<and> hd r = CHR '' '' then tl r else r)"

text \<open>
  Claim C7, as amended: for a selection inside the buffer, \<^verbatim>\<open>setHeadingLevel(level)\<close>
  replaces every line from the selection's first to its last line, and no other line, by
  \<open>level\<close> times \<open>#\<close> and one space (nothing when \<open>level\<close> is 0) followed by the old
  line without its leading \<open>#\<close> characters and without the one space after them, if
  there is one. All leading \<open>#\<close> are taken off, however many: the old line is \<open>k\<close>
  times \<open>#\<close>, then that space or nothing, then what is kept, and without the space what
  is kept starts neither with \<open>#\<close> nor with a space.
\<close>

theorem setHeadingLevel_rewrites_lines:
  assumes "properDoc d" "validRange d sel"
  shows "(\<exists>sels'. setHeadingLevel level d [sel]
           = Some (take (nat (line (rangeFrom sel))) d
                   @ map (headingRewrite level)
                       (take (nat (line (rangeTo sel) + 1 - line (rangeFrom sel)))
                          (drop (nat (line (rangeFrom sel))) d))
                   @ drop (nat (line (rangeTo sel) + 1)) d,
                   sels'))
     \<and> headingRewrite level l
         = replicate level CHR ''#'' @ (if level = 0 then [] else '' '') @ stripHeading l
     \<and> (\<exists>k sp. l = replicate k CHR ''#'' @ sp @ stripHeading l
          \<and> (sp = '' '' \<or> sp = [] \<and> (stripHeading l = []
               \<or> hd (stripHeading l) \<noteq> CHR ''#'' \<and> hd (stripHeading l) \<noteq> CHR '' '')))"
proof -
  let ?a = "line (rangeFrom sel)" and ?b = "line (rangeTo sel)"
  have ab: "0 \<le> ?a" "?a \<le> ?b" "?b < int (length d)"
    using assms(2) by (rule validRange_lines)+
  have nb: "list_all noBreak d" using assms(1) by (simp add: properDoc_def)
  from lineLoop_pure [of "headingRewrite level" d ?a sel "nat (?b + 1 - ?a)" 0 0,
      OF headingRewrite_noBreak nb ab(1) ab(3) refl]
  obtain sf st where ll: "lineLoop (pureFn (headingRewrite level)) sel d ?a 0 0
      = Some (take (nat ?a) d @ map (headingRewrite level) (take (nat (?b + 1 - ?a)) (drop (nat ?a) d))
              @ drop (nat ?a + nat (?b + 1 - ?a)) d, sf, st)"
    by blast
  have e: "nat ?a + nat (?b + 1 - ?a) = nat (?b + 1)" using ab by simp
  have 1: "\<exists>sels'. setHeadingLevel level d [sel]
           = Some (take (nat ?a) d
                   @ map (headingRewrite level) (take (nat (?b + 1 - ?a)) (drop (nat ?a) d))
                   @ drop (nat (?b + 1)) d, sels')"
    using ll by (simp add: setHeadingLevel_def replaceTokenAtLineStart_def e)
  have 2: "headingRewrite level l
         = replicate level CHR ''#'' @ (if level = 0 then [] else '' '') @ stripHeading l"
    by (simp add: headingRewrite_def headingToken_def)
  show ?thesis
    by (intro conjI 1 2 stripHeading_shape)
qed

text \<open>The theorem at a selection over the first two of three lines, with the two
  examples of the claim.\<close>

theorem setHeadingLevel_witness:
  "properDoc [''## Title'', ''Title'', ''####### T''] \<and> validRange [''## Title'', ''Title'', ''####### T''] (Range (Pos 0 1) (Pos 1 2))
   \<and> (\<exists>sels'. setHeadingLevel 3 [''## Title'', ''Title'', ''####### T''] [Range (Pos 0 1) (Pos 1 2)]
         = Some ([''### Title'', ''### Title'', ''####### T''], sels'))
   \<and> headingRewrite 0 ''## Title'' = ''Title''
   \<and> headingRewrite 3 ''Title'' = ''### Title''"
proof -
  have p: "properDoc [''## Title'', ''Title'', ''####### T'']" by code_simp
  have v: "validRange [''## Title'', ''Title'', ''####### T''] (Range (Pos 0 1) (Pos 1 2))" by code_simp
  have e: "take (nat (line (rangeFrom (Range (Pos 0 1) (Pos 1 2))))) [''## Title'', ''Title'', ''####### T'']
                   @ map (headingRewrite 3)
                       (take (nat (line (rangeTo (Range (Pos 0 1) (Pos 1 2))) + 1 - line (rangeFrom (Range (Pos 0 1) (Pos 1 2)))))
                          (drop (nat (line (rangeFrom (Range (Pos 0 1) (Pos 1 2))))) [''## Title'', ''Title'', ''####### T'']))
                   @ drop (nat (line (rangeTo (Range (Pos 0 1) (Pos 1 2))) + 1)) [''## Title'', ''Title'', ''####### T'']
           = [''### Title'', ''### Title'', ''####### T'']" by code_simp
  have x: "headingRewrite 0 ''## Title'' = ''Title''" "headingRewrite 3 ''Title'' = ''### Title''"
    by code_simp+
  have "\<exists>sels'. setHeadingLevel 3 [''## Title'', ''Title'', ''####### T''] [Range (Pos 0 1) (Pos 1 2)]
         = Some ([''### Title'', ''### Title'', ''####### T''], sels')"
    using setHeadingLevel_rewrites_lines [OF p v, of 3 "[]"] unfolding e by (rule conjunct1)
  then show ?thesis
    by (intro conjI p v x)
qed

text \<open>Claim C7 as stated fails on a line with more than six \<open>#\<close>: the code takes all
  seven off, the claim's wording leaves the seventh.\<close>

theorem setHeadingLevel_seven_hashes:
  "setHeadingLevel 0 [''####### T''] [Shared (Pos 0 0)] = Some ([''T''], [Shared (Pos 0 (- 8))])
   \<and> headingToken 0 @ specStripHeading ''####### T'' = ''# T''"
  by code_simp

section \<open>Clamped removal ranges\<close>

lemma prefixStart_bounds:
  "0 \<le> ch (prefixStart from t)" "line (prefixStart from t) = line from"
  "0 \<le> ch from \<Longrightarrow> ch (prefixStart from t) \<le> ch from"
  by (simp_all add: prefixStart_def)

lemma suffixEnd_bounds:
  "ch (suffixEnd to ell t) \<le> ell" "line (suffixEnd to ell t) = line to"
  "ch to \<le> ell \<Longrightarrow> ch to \<le> ch (suffixEnd to ell t)"
  by (simp_all add: suffixEnd_def)

lemma validRange_ends:
  "validRange d sel \<Longrightarrow> validPos d (rangeFrom sel)"
  "validRange d sel \<Longrightarrow> validPos d (rangeTo sel)"
  by (simp_all add: validRange_def rangeFrom_def rangeTo_def)

text \<open>A request lies inside a buffer when its positions do, with the end of a removal on
  the line of its start and not before it.\<close>

definition requestInside :: "doc \<Rightarrow> request \<Rightarrow> bool" where
  "requestInside d r \<longleftrightarrow>
     validPos d (reqFrom r)
     \<and> (case reqTo r of None \<Rightarrow> True
         | Some e \<Rightarrow> validPos d e \<and> line e = line (reqFrom r) \<and> ch (reqFrom r) \<le> ch e)"

lemma validPos_same_line:
  "validPos d p \<Longrightarrow> line q = line p \<Longrightarrow> 0 \<le> ch q \<Longrightarrow> ch q \<le> int (length (lineText d (line p)))
   \<Longrightarrow> validPos d q"
  by (simp add: validPos_def)

lemma toggleStep_clamped:
  assumes "toggleStep token altTokens d sel = Some (suffixReq, prefixReq, b, a)"
  shows "(reqTo prefixReq \<noteq> None \<longrightarrow> 0 \<le> ch (reqFrom prefixReq))
    \<and> (\<forall>e. reqTo suffixReq = Some e \<longrightarrow> ch e \<le> int (length (lineText d (line (rangeTo sel)))))
    \<and> (validRange d sel \<longrightarrow> requestInside d suffixReq \<and> requestInside d prefixReq)"
proof -
  let ?from = "rangeFrom sel" and ?to = "rangeTo sel"
  from assms obtain endLine where gl: "getLine d (line ?to) = Some endLine"
    by (auto simp: toggleStep_def Let_def split: option.splits)
  then have ell: "lineText d (line ?to) = endLine" by (simp add: lineText_def)
  let ?ell = "int (length endLine)"
  from assms gl obtain ps ss where
    s: "suffixReq = Request [] ?to (Some (suffixEnd ?to ?ell ss)) \<or> suffixReq = Request token ?to None"
    and p: "prefixReq = Request [] (prefixStart ?from ps) (Some ?from) \<or> prefixReq = Request token ?from None"
    by (auto simp: toggleStep_def Let_def split: if_splits)
  have 1: "reqTo prefixReq \<noteq> None \<longrightarrow> 0 \<le> ch (reqFrom prefixReq)"
    using p prefixStart_bounds(1) by auto
  have 2: "\<forall>e. reqTo suffixReq = Some e \<longrightarrow> ch e \<le> int (length (lineText d (line ?to)))"
    using s suffixEnd_bounds(1) ell by auto
  have 3: "requestInside d suffixReq \<and> requestInside d prefixReq" if v: "validRange d sel"
  proof -
    have vf: "validPos d ?from" and vt: "validPos d ?to"
      using v by (rule validRange_ends)+
    have cf: "0 \<le> ch ?from" using vf by (simp add: validPos_def)
    have ct: "0 \<le> ch ?to" "ch ?to \<le> ?ell" using vt ell by (simp_all add: validPos_def)
    have vs: "validPos d (suffixEnd ?to ?ell ss)"
      using vt suffixEnd_bounds(2) _ _
    proof (rule validPos_same_line)
      show "0 \<le> ch (suffixEnd ?to ?ell ss)"
        using suffixEnd_bounds(3) [OF ct(2), of ss] ct(1) by simp
      show "ch (suffixEnd ?to ?ell ss) \<le> int (length (lineText d (line ?to)))"
        using suffixEnd_bounds(1) [of ?to ?ell ss] ell by simp
    qed
    have vp: "validPos d (prefixStart ?from ps)"
      using vf prefixStart_bounds(2) prefixStart_bounds(1)
    proof (rule validPos_same_line)
      show "ch (prefixStart ?from ps) \<le> int (length (lineText d (line ?from)))"
        using prefixStart_bounds(3) [OF cf, of ps] vf by (simp add: validPos_def)
    qed
    have "requestInside d suffixReq"
      using s vt vs suffixEnd_bounds(2) [of ?to ?ell ss] suffixEnd_bounds(3) [OF ct(2), of ss]
      by (auto simp: requestInside_def)
    moreover have "requestInside d prefixReq"
      using p vf vp prefixStart_bounds(2) [of ?from ps] prefixStart_bounds(3) [OF cf, of ps]
      by (auto simp: requestInside_def)
    ultimately show ?thesis ..
  qed
  from 1 2 3 show ?thesis by blast
qed

lemma srcToggleStep_clamped:
  assumes "srcToggleStep op d sel = Some (suffixReq, prefixReq, hp, hs)"
  shows "(reqTo prefixReq \<noteq> None \<longrightarrow> 0 \<le> ch (reqFrom prefixReq))
    \<and> (\<forall>e. reqTo suffixReq = Some e \<longrightarrow> ch e \<le> int (length (lineText d (line (rangeTo sel)))))
    \<and> (validRange d sel \<longrightarrow> requestInside d suffixReq \<and> requestInside d prefixReq)"
proof -
  let ?from = "rangeFrom sel" and ?to = "rangeTo sel"
  from assms obtain endLine where gl: "getLine d (line ?to) = Some endLine"
    by (auto simp: srcToggleStep_def Let_def split: option.splits)
  then have ell: "lineText d (line ?to) = endLine" by (simp add: lineText_def)
  let ?ell = "int (length endLine)"
  from assms gl have
    s: "suffixReq = Request [] ?to (Some (suffixEnd ?to ?ell op)) \<or> suffixReq = Request op ?to None"
    and p: "prefixReq = Request [] (prefixStart ?from op) (Some ?from) \<or> prefixReq = Request op ?from None"
    by (auto simp: srcToggleStep_def Let_def split: if_splits)
  have 1: "reqTo prefixReq \<noteq> None \<longrightarrow> 0 \<le> ch (reqFrom prefixReq)"
    using p prefixStart_bounds(1) by auto
  have 2: "\<forall>e. reqTo suffixReq = Some e \<longrightarrow> ch e \<le> int (length (lineText d (line ?to)))"
    using s suffixEnd_bounds(1) ell by auto
  have 3: "requestInside d suffixReq \<and> requestInside d prefixReq" if v: "validRange d sel"
  proof -
    have vf: "validPos d ?from" and vt: "validPos d ?to"
      using v by (rule validRange_ends)+
    have cf: "0 \<le> ch ?from" using vf by (simp add: validPos_def)
    have ct: "0 \<le> ch ?to" "ch ?to \<le> ?ell" using vt ell by (simp_all add: validPos_def)
    have vs: "validPos d (suffixEnd ?to ?ell op)"
      using vt suffixEnd_bounds(2) _ _
    proof (rule validPos_same_line)
      show "0 \<le> ch (suffixEnd ?to ?ell op)"
        using suffixEnd_bounds(3) [OF ct(2), of op] ct(1) by simp
      show "ch (suffixEnd ?to ?ell op) \<le> int (length (lineText d (line ?to)))"
        using suffixEnd_bounds(1) [of ?to ?ell op] ell by simp
    qed
    have vp: "validPos d (prefixStart ?from op)"
      using vf prefixStart_bounds(2) prefixStart_bounds(1)
    proof (rule validPos_same_line)
      show "ch (prefixStart ?from op) \<le> int (length (lineText d (line ?from)))"
        using prefixStart_bounds(3) [OF cf, of op] vf by (simp add: validPos_def)
    qed
    have "requestInside d suffixReq"
      using s vt vs suffixEnd_bounds(2) [of ?to ?ell op] suffixEnd_bounds(3) [OF ct(2), of op]
      by (auto simp: requestInside_def)
    moreover have "requestInside d prefixReq"
      using p vf vp prefixStart_bounds(2) [of ?from op] prefixStart_bounds(3) [OF cf, of op]
      by (auto simp: requestInside_def)
    ultimately show ?thesis ..
  qed
  from 1 2 3 show ?thesis by blast
qed

text \<open>
  What the clamps of the code achieve, in both editions (the first conjunct is the later
  edition, the second the earlier one): the range requested for the removal of a prefix
  token starts at a column that is at least 0, and the range requested for the removal of
  a suffix token ends at a column that is at most the length of the line; and for a
  selection inside the buffer both requests, removals and insertions, lie inside the
  buffer. The other end of a removal, \<^verbatim>\<open>from\<close> or \<^verbatim>\<open>to\<close> itself, is not clamped.
\<close>

theorem removal_ranges_clamped:
  "(toggleStep token altTokens d sel = Some (suffixReq, prefixReq, b, a) \<longrightarrow>
      (reqTo prefixReq \<noteq> None \<longrightarrow> 0 \<le> ch (reqFrom prefixReq))
      \<and> (\<forall>e. reqTo suffixReq = Some e \<longrightarrow> ch e \<le> int (length (lineText d (line (rangeTo sel)))))
      \<and> (validRange d sel \<longrightarrow> requestInside d suffixReq \<and> requestInside d prefixReq))
   \<and> (srcToggleStep op d sel = Some (suffixReq', prefixReq', hasPrefixToken, hasSuffixToken) \<longrightarrow>
      (reqTo prefixReq' \<noteq> None \<longrightarrow> 0 \<le> ch (reqFrom prefixReq'))
      \<and> (\<forall>e. reqTo suffixReq' = Some e \<longrightarrow> ch e \<le> int (length (lineText d (line (rangeTo sel)))))
      \<and> (validRange d sel \<longrightarrow> requestInside d suffixReq' \<and> requestInside d prefixReq'))"
  by (intro conjI impI; (drule toggleStep_clamped | drule srcToggleStep_clamped); blast)

text \<open>The theorem at a selection whose two tokens are removed.\<close>

theorem removal_ranges_witness:
  "toggleStep ''**'' [''__''] [''x**a**''] (Range (Pos 0 3) (Pos 0 4))
     = Some (Request [] (Pos 0 4) (Some (Pos 0 6)), Request [] (Pos 0 1) (Some (Pos 0 3)), - 1, - 1)
   \<and> srcToggleStep ''**'' [''x**a**''] (Range (Pos 0 3) (Pos 0 4))
     = Some (Request [] (Pos 0 4) (Some (Pos 0 6)), Request [] (Pos 0 1) (Some (Pos 0 3)), True, True)
   \<and> validRange [''x**a**''] (Range (Pos 0 3) (Pos 0 4))
   \<and> (0::int) \<le> ch (reqFrom (Request [] (Pos 0 1) (Some (Pos 0 3))))
   \<and> ch (Pos 0 6) \<le> int (length (lineText [''x**a**''] (line (rangeTo (Range (Pos 0 3) (Pos 0 4))))))
   \<and> requestInside [''x**a**''] (Request [] (Pos 0 4) (Some (Pos 0 6)))
   \<and> requestInside [''x**a**''] (Request [] (Pos 0 1) (Some (Pos 0 3)))"
proof -
  have e: "toggleStep ''**'' [''__''] [''x**a**''] (Range (Pos 0 3) (Pos 0 4))
     = Some (Request [] (Pos 0 4) (Some (Pos 0 6)), Request [] (Pos 0 1) (Some (Pos 0 3)), - 1, - 1)"
    by code_simp
  have e': "srcToggleStep ''**'' [''x**a**''] (Range (Pos 0 3) (Pos 0 4))
     = Some (Request [] (Pos 0 4) (Some (Pos 0 6)), Request [] (Pos 0 1) (Some (Pos 0 3)), True, True)"
    by code_simp
  have v: "validRange [''x**a**''] (Range (Pos 0 3) (Pos 0 4))"
    by code_simp
  from removal_ranges_clamped [of "''**''" "[''__'']" "[''x**a**'']" "Range (Pos 0 3) (Pos 0 4)"
      "Request [] (Pos 0 4) (Some (Pos 0 6))" "Request [] (Pos 0 1) (Some (Pos 0 3))" "- 1" "- 1"
      "''**''" "Request [] (Pos 0 4) (Some (Pos 0 6))" "Request [] (Pos 0 1) (Some (Pos 0 3))" True True]
    e e' v
  show ?thesis by simp
qed

text \<open>
  Claim C9: in an inline toggle no removal takes more than stands between the start of the
  line and \<^verbatim>\<open>from()\<close>, or between \<^verbatim>\<open>to()\<close> and the end of the line, so that no
  out-of-range mutation is ever requested of the buffer. The code clamps
  \<^verbatim>\<open>prefixStart\<close> and \<^verbatim>\<open>suffixEnd\<close>, but not the positions it has shifted itself.
  With the line \<^verbatim>\<open>******x\<close> and carets at the columns 2 and 3, the first caret has both
  tokens removed, and the second caret, which stood inside the removed suffix token, is
  shifted by two tokens to column -1. For it the code requests the removal of the range
  from column -1 to column 1, which takes one character of the two of a token, and then an
  insertion at column -1. The buffer is left as \<^verbatim>\<open>***x\<close>.
\<close>

theorem toggleBold_requests_before_line_start:
  "toggleRequests ''**'' [''__''] [''******x''] [Shared (Pos 0 2), Shared (Pos 0 3)]
     = Some [([''******x''], Request [] (Pos 0 2) (Some (Pos 0 4))),
             ([''****x''], Request [] (Pos 0 0) (Some (Pos 0 2))),
             ([''**x''], Request [] (Pos 0 (- 1)) (Some (Pos 0 1))),
             ([''*x''], Request ''**'' (Pos 0 (- 1)) None)]
   \<and> requestInside [''**x''] (Request [] (Pos 0 (- 1)) (Some (Pos 0 1))) = False
   \<and> requestInside [''*x''] (Request ''**'' (Pos 0 (- 1)) None) = False
   \<and> validRange [''******x''] (Shared (Pos 0 2))
   \<and> validRange [''******x''] (Shared (Pos 0 3))
   \<and> toggleBold ''**'' [''******x''] [Shared (Pos 0 2), Shared (Pos 0 3)]
     = Some ([''***x''], [Shared (Pos 0 0), Shared (Pos 0 1)])"
  by code_simp

section \<open>The two editions compared\<close>

lemma srcProcessLoop_eq: "srcProcessLoop d listNumber nextLineNumber = processLoop d listNumber nextLineNumber"
proof (induction d listNumber nextLineNumber rule: processLoop.induct)
  case (1 d listNumber nextLineNumber)
  show ?case
  proof (cases "getLine d nextLineNumber")
    case None
    then show ?thesis
      by (subst srcProcessLoop.simps, subst processLoop.simps) simp
  next
    case (Some nextLine)
    show ?thesis
    proof (cases "nextLine \<noteq> [] \<and> matchOrdered nextLine \<noteq> None")
      case True
      from "1.IH" [OF Some True] Some True show ?thesis
        by (subst srcProcessLoop.simps, subst processLoop.simps) simp
    next
      case False
      with Some show ?thesis
        by (subst srcProcessLoop.simps, subst processLoop.simps) auto
    qed
  qed
qed

lemma srcOrderedRewrite_eq: "srcOrderedRewrite = orderedRewrite"
  by (intro ext)
     (simp add: srcOrderedRewrite_def orderedRewrite_def srcProcessNextLinesOfOrderedList_def
        processNextLinesOfOrderedList_def srcProcessLoop_eq Let_def split: option.split)

lemma srcUnorderedRewrite_eq: "srcUnorderedRewrite = unorderedRewrite (''-'' @ '' '')"
  by (intro ext) (simp add: srcUnorderedRewrite_def unorderedRewrite_def Let_def split: option.split)

lemma srcLineLoop_eq:
  "srcLineLoop replaceFn selection d lineNumber shiftFrom shiftTo
   = lineLoop replaceFn selection d lineNumber shiftFrom shiftTo"
proof (induction replaceFn selection d lineNumber shiftFrom shiftTo rule: lineLoop.induct)
  case (1 replaceFn selection d lineNumber shiftFrom shiftTo)
  show ?case
  proof (cases "lineNumber \<le> line (rangeTo selection)")
    case False
    then show ?thesis
      by (subst srcLineLoop.simps, subst lineLoop.simps) simp
  next
    case True
    show ?thesis
    proof (cases "getLine d lineNumber")
      case None
      with True show ?thesis
        by (subst srcLineLoop.simps, subst lineLoop.simps) simp
    next
      case (Some oldLineContent)
      from "1.IH" [OF True Some] True Some show ?thesis
        by (subst srcLineLoop.simps, subst lineLoop.simps) simp
    qed
  qed
qed

lemma srcAdjustBoundaries_eq: "srcAdjustBoundaries = adjustBoundaries"
  by (intro ext) (simp add: srcAdjustBoundaries_def adjustBoundaries_def)

lemma srcReplaceLoop_eq: "srcReplaceLoop replaceFn d selections = replaceLoop replaceFn d selections"
  by (induction selections arbitrary: d)
     (simp_all add: srcLineLoop_eq srcAdjustBoundaries_eq split: option.split prod.split)

lemma srcCodeBlockStep_eq: "srcCodeBlockStep = codeBlockStep ''```''"
  by (intro ext) (simp add: srcCodeBlockStep_def codeBlockStep_def)

lemma srcAdjustCode_eq: "srcAdjustCode = adjustCode"
  by (intro ext) (simp add: srcAdjustCode_def adjustCode_def)

lemma srcCodeBlockLoop_eq: "srcCodeBlockLoop d selections = codeBlockLoop ''```'' d selections"
proof (induction d selections rule: srcCodeBlockLoop.induct)
  case (1 d)
  then show ?case by simp
next
  case (2 d oldSelection following)
  obtain d1 new cs where st: "srcCodeBlockStep d oldSelection = (d1, new, cs)"
    by (cases "srcCodeBlockStep d oldSelection") auto
  from "2.IH" [OF st [symmetric] refl] st show ?case
    by (simp add: srcCodeBlockStep_eq [symmetric] srcAdjustCode_eq [symmetric])
qed

text \<open>
  Claim C5, as amended: the two editions give the same buffer and hand the same list to
  \<^verbatim>\<open>setSelections\<close>, for every buffer and every list of selections, for
  \<^verbatim>\<open>setHeadingLevel\<close>, \<^verbatim>\<open>toggleQuote\<close>, \<^verbatim>\<open>toggleUnorderedList\<close>,
  \<^verbatim>\<open>toggleOrderedList\<close> and \<^verbatim>\<open>insertCodeBlock\<close>, when the later edition is set up
  with the bullet \<^verbatim>\<open>-\<close> and the fence of three backquotes that the earlier one
  has in its code (also where they throw: both give \<open>None\<close>). The inline toggles are
  left out: they differ.
\<close>

theorem editions_agree_on_line_prefixes_and_code_blocks:
  "srcSetHeadingLevel level d selections = setHeadingLevel level d selections
   \<and> srcToggleQuote d selections = toggleQuote d selections
   \<and> srcToggleUnorderedList d selections = toggleUnorderedList ''-'' d selections
   \<and> srcToggleOrderedList d selections = toggleOrderedList d selections
   \<and> srcInsertCodeBlock d selections = insertCodeBlock ''```'' d selections"
  by (simp add: srcSetHeadingLevel_def setHeadingLevel_def srcToggleQuote_def toggleQuote_def
      srcToggleUnorderedList_def toggleUnorderedList_def srcToggleOrderedList_def
      toggleOrderedList_def srcInsertCodeBlock_def insertCodeBlock_def
      srcReplaceTokenAtLineStart_def replaceTokenAtLineStart_def
      srcReplaceLoop_eq srcCodeBlockLoop_eq srcOrderedRewrite_eq srcUnorderedRewrite_eq)

text \<open>
  Claim C5 as stated fails for \<^verbatim>\<open>toggleBold\<close>. On the line \<^verbatim>\<open>ab\<close> with both
  letters selected, both editions write \<^verbatim>\<open>**ab**\<close>, but the later one hands over the
  selection from column 2 to 4 and the earlier one the caret at column 2 (its
  \<^verbatim>\<open>selection.empty()\<close> is asked after the anchor was moved onto the head); the buffer
  installs each as it is. On \<^verbatim>\<open>__abc__\<close> with \<^verbatim>\<open>abc\<close> selected the later edition
  takes the alternative token \<^verbatim>\<open>__\<close> off, the earlier one knows only \<^verbatim>\<open>**\<close> and
  wraps the selection once more.
\<close>

theorem editions_differ_on_toggleBold:
  "toggleBold ''**'' [''ab''] [Range (Pos 0 0) (Pos 0 2)]
     = Some ([''**ab**''], [Range (Pos 0 2) (Pos 0 4)])
   \<and> srcToggleBold [''ab''] [Range (Pos 0 0) (Pos 0 2)]
     = Some ([''**ab**''], [Range (Pos 0 2) (Pos 0 2)])
   \<and> setSelections [''**ab**''] [Range (Pos 0 2) (Pos 0 4)] = [Range (Pos 0 2) (Pos 0 4)]
   \<and> setSelections [''**ab**''] [Range (Pos 0 2) (Pos 0 2)] = [Range (Pos 0 2) (Pos 0 2)]
   \<and> toggleBold ''**'' [''__abc__''] [Range (Pos 0 2) (Pos 0 5)]
     = Some ([''abc''], [Range (Pos 0 0) (Pos 0 3)])
   \<and> srcToggleBold [''__abc__''] [Range (Pos 0 2) (Pos 0 5)]
     = Some ([''__**abc**__''], [Range (Pos 0 4) (Pos 0 7)])"
  by code_simp

section \<open>Code blocks\<close>

lemma LF_neq_CR [simp]: "LF \<noteq> CR" "CR \<noteq> LF"
  by (simp_all add: LF_def CR_def)

lemma splitLines_append_LF:
  "noBreak t \<Longrightarrow> splitLines (t @ LF # u) = t # splitLines u"
  by (induction t) (auto simp: noBreak_def)

lemma splitLines_fence: "noBreak t \<Longrightarrow> splitLines (LF # t @ [LF]) = [[], t, []]"
  by (simp add: splitLines_append_LF)

lemma replaceRange_insert_text:
  "validPos d p \<Longrightarrow>
   replaceRange d code p None
   = take (nat (line p)) d
     @ glue (take (nat (ch p)) (lineText d (line p))) (splitLines code)
         (drop (nat (ch p)) (lineText d (line p)))
     @ drop (nat (line p) + 1) d"
  by (simp add: replaceRange_def clipPos_valid cmp_def splice_def)

lemma insert_fence:
  assumes "validPos d p" "noBreak t"
  shows "replaceRange d (LF # t @ [LF]) p None
   = take (nat (line p)) d
     @ [take (nat (ch p)) (lineText d (line p)), t, drop (nat (ch p)) (lineText d (line p))]
     @ drop (nat (line p) + 1) d"
  unfolding replaceRange_insert_text [OF assms(1)] splitLines_fence [OF assms(2)]
  by (simp add: glue_def)

text \<open>The buffer after the two insertions around a one-line selection that starts after
  column 0.\<close>

lemma codeBlock_buffer:
  assumes n: "isLine d n" and c: "0 < c1" "c1 \<le> c2" "c2 \<le> int (length (lineText d n))"
    and t: "noBreak t"
  shows "replaceRange (replaceRange d (LF # t @ [LF]) (Pos n c2) None) (LF # t @ [LF]) (Pos n c1) None
   = take (nat n) d
     @ [take (nat c1) (lineText d n), t,
        drop (nat c1) (take (nat c2) (lineText d n)), t,
        drop (nat c2) (lineText d n)]
     @ drop (nat n + 1) d"
proof -
  let ?L = "lineText d n"
  define d1 where "d1 = take (nat n) d @ [take (nat c2) ?L, t, drop (nat c2) ?L] @ drop (nat n + 1) d"
  have nl: "0 \<le> n" "nat n < length d" using n by (auto simp: isLine_def)
  have v2: "validPos d (Pos n c2)" using n c by simp
  have r1: "replaceRange d (LF # t @ [LF]) (Pos n c2) None = d1"
    using insert_fence [OF v2 t] by (simp add: d1_def)
  have l1: "isLine d1 n" using nl by (auto simp: isLine_def d1_def)
  have "d1 ! nat n = take (nat c2) ?L"
    using nl by (simp add: nth_append d1_def)
  then have t1: "lineText d1 n = take (nat c2) ?L"
    using lineText_nth [OF l1] by simp
  have v1: "validPos d1 (Pos n c1)"
    using l1 c by (simp add: t1)
  have tt: "take (nat n) d1 = take (nat n) d"
    "drop (nat n + 1) d1 = [t, drop (nat c2) ?L] @ drop (nat n + 1) d"
    using nl by (simp_all add: d1_def)
  have m: "min (nat c1) (nat c2) = nat c1" "min (nat c2) (nat c1) = nat c1" using c by simp_all
  have "replaceRange d1 (LF # t @ [LF]) (Pos n c1) None
     = take (nat n) d1 @ [take (nat c1) (lineText d1 n), t, drop (nat c1) (lineText d1 n)]
       @ drop (nat n + 1) d1"
    using insert_fence [OF v1 t] by simp
  then show ?thesis
    unfolding r1 tt t1 by (simp add: m)
qed

lemma Pos_eq [simp]: "Pos a b = Pos c e \<longleftrightarrow> a = c \<and> b = e"
  by (simp add: Pos_def)

lemma codeBlock_selection:
  assumes "x \<noteq> y" "0 \<le> x" "0 \<le> y"
  shows "\<exists>ca ch'. updFrom (setCh 0) (updFrom (addLine 2)
            (updTo (addCh (- min x y)) (updTo (addLine 2) (Range (Pos n x) (Pos n y)))))
          = Range (Pos (n + 2) ca) (Pos (n + 2) ch')
        \<and> (ca = 0 \<and> \<bar>x - y\<bar> \<le> ch' \<or> ch' = 0 \<and> \<bar>x - y\<bar> \<le> ca)"
proof (cases "x < y")
  case True
  then have 1: "updTo (addCh (- min x y)) (updTo (addLine 2) (Range (Pos n x) (Pos n y)))
      = Range (Pos n x) (Pos (n + 2) (y - x))"
    by (simp add: updTo_def updHead_def updAnchor_def cmp_def addLine_def addCh_def Pos_def)
  have 2: "updFrom (addLine 2) (Range (Pos n x) (Pos (n + 2) (y - x)))
      = Range (Pos (n + 2) x) (Pos (n + 2) (y - x))"
    by (simp add: updFrom_def updHead_def updAnchor_def cmp_def addLine_def Pos_def)
  show ?thesis
  proof (cases "x < y - x")
    case True
    then have "updFrom (setCh 0) (Range (Pos (n + 2) x) (Pos (n + 2) (y - x)))
        = Range (Pos (n + 2) 0) (Pos (n + 2) (y - x))"
      by (simp add: updFrom_def updHead_def updAnchor_def cmp_def setCh_def Pos_def)
    then show ?thesis unfolding 1 2 using \<open>x < y\<close> by simp
  next
    case False
    then have "updFrom (setCh 0) (Range (Pos (n + 2) x) (Pos (n + 2) (y - x)))
        = Range (Pos (n + 2) x) (Pos (n + 2) 0)"
      by (simp add: updFrom_def updHead_def updAnchor_def cmp_def setCh_def Pos_def)
    then show ?thesis unfolding 1 2 using \<open>x < y\<close> False by simp
  qed
next
  case False
  with assms have yx: "y < x" by simp
  then have 1: "updTo (addCh (- min x y)) (updTo (addLine 2) (Range (Pos n x) (Pos n y)))
      = Range (Pos (n + 2) (x - y)) (Pos n y)"
    by (simp add: updTo_def updHead_def updAnchor_def cmp_def addLine_def addCh_def Pos_def)
  have 2: "updFrom (addLine 2) (Range (Pos (n + 2) (x - y)) (Pos n y))
      = Range (Pos (n + 2) (x - y)) (Pos (n + 2) y)"
    by (simp add: updFrom_def updHead_def updAnchor_def cmp_def addLine_def Pos_def)
  show ?thesis
  proof (cases "x - y < y")
    case True
    then have "updFrom (setCh 0) (Range (Pos (n + 2) (x - y)) (Pos (n + 2) y))
        = Range (Pos (n + 2) 0) (Pos (n + 2) y)"
      by (simp add: updFrom_def updHead_def updAnchor_def cmp_def setCh_def Pos_def)
    then show ?thesis unfolding 1 2 using yx True by simp
  next
    case False
    then have "updFrom (setCh 0) (Range (Pos (n + 2) (x - y)) (Pos (n + 2) y))
        = Range (Pos (n + 2) (x - y)) (Pos (n + 2) 0)"
      by (simp add: updFrom_def updHead_def updAnchor_def cmp_def setCh_def Pos_def)
    then show ?thesis unfolding 1 2 using yx by simp
  qed
qed

lemma clipPos_line:
  assumes "isLine d m"
  shows "clipPos d (Pos m k)
    = Pos m (if k > int (length (lineText d m)) then int (length (lineText d m))
             else if k < 0 then 0 else k)"
  using assms by (simp add: clipPos_def clipToLen_def isLine_def Let_def Pos_def)

lemma installed_span:
  assumes m: "isLine d m" and len: "int (length (lineText d m)) = len" "0 < len"
    and r: "r = Range (Pos m ca) (Pos m ch')"
    and c: "ca = 0 \<and> len \<le> ch' \<or> ch' = 0 \<and> len \<le> ca"
  shows "\<exists>r'. setSelections d [r] = [r'] \<and> rangeFrom r' = Pos m 0 \<and> rangeTo r' = Pos m len"
proof -
  have s: "setSelections d [r] = [Range (clipPos d (Pos m ca)) (clipPos d (Pos m ch'))]"
    by (simp add: setSelections_def clipRange_def r)
  from c show ?thesis
  proof
    assume "ca = 0 \<and> len \<le> ch'"
    then have "clipPos d (Pos m ca) = Pos m 0" "clipPos d (Pos m ch') = Pos m len"
      using len by (simp_all add: clipPos_line [OF m])
    then show ?thesis
      using len(2) by (simp add: s rangeFrom_def rangeTo_def cmp_def)
  next
    assume "ch' = 0 \<and> len \<le> ca"
    then have "clipPos d (Pos m ca) = Pos m len" "clipPos d (Pos m ch') = Pos m 0"
      using len by (simp_all add: clipPos_line [OF m])
    then show ?thesis
      using len(2) by (simp add: s rangeFrom_def rangeTo_def cmp_def)
  qed
qed

text \<open>
  Claim C8: for a non-empty selection on one line \<open>n\<close> that starts at a column
  \<open>c1 > 0\<close> and ends at \<open>c2\<close>, \<^verbatim>\<open>insertCodeBlock\<close> leaves in place of line \<open>n\<close>
  five lines: the text before the selection, the fence, the selected text, the fence, and
  the rest of the line; the lines before and after are as they were. The selection it
  hands over is installed by the buffer as the span from column 0 of the content line
  \<open>n + 2\<close> to the content's length. (What is handed over can have its other end beyond
  the content line's end and anchor and head exchanged; the buffer clips it.) The fence
  token holds no line break.
\<close>

theorem insertCodeBlock_wraps_selection:
  assumes v: "validRange d sel" and ne: "\<not> rangeEmpty sel"
    and one: "line (rangeFrom sel) = line (rangeTo sel)" and pos: "0 < ch (rangeFrom sel)"
    and t: "noBreak preferredToken"
    and n: "n = line (rangeFrom sel)" and c1: "c1 = ch (rangeFrom sel)" and c2: "c2 = ch (rangeTo sel)"
    and d': "d' = take (nat n) d
               @ [take (nat c1) (lineText d n), preferredToken, selectedText d sel, preferredToken,
                  drop (nat c2) (lineText d n)]
               @ drop (nat n + 1) d"
  shows "\<exists>newSelection installed.
           insertCodeBlock preferredToken d [sel] = (d', [newSelection])
           \<and> setSelections d' [newSelection] = [installed]
           \<and> rangeFrom installed = Pos (n + 2) 0
           \<and> rangeTo installed = Pos (n + 2) (int (length (selectedText d sel)))"
proof -
  let ?L = "lineText d n"
  from ne obtain a h where sel: "sel = Range a h"
    by (cases sel) (auto simp: rangeEmpty_def)
  define x where "x = ch a"
  define y where "y = ch h"
  have la: "line a = n" and lh: "line h = n"
    using one n by (auto simp: sel rangeFrom_def rangeTo_def split: if_splits)
  have a: "a = Pos n x" and h: "h = Pos n y"
    using la lh by (simp_all add: Pos_def x_def y_def)
  have xy: "x \<noteq> y" using ne by (auto simp: sel a h rangeEmpty_def)
  have fr: "rangeFrom sel = Pos n (min x y)" and to: "rangeTo sel = Pos n (max x y)"
    using xy by (auto simp: sel a h rangeFrom_def rangeTo_def cmp_def)
  have c1': "c1 = min x y" and c2': "c2 = max x y"
    using c1 c2 by (simp_all add: fr to)
  have vf: "validPos d (Pos n c1)" and vt: "validPos d (Pos n c2)"
    using validRange_ends [OF v] by (simp_all add: fr to c1' c2')
  then have il: "isLine d n" and b: "0 \<le> c1" "c2 \<le> int (length ?L)"
    by simp_all
  have le: "c1 \<le> c2" by (simp add: c1' c2')
  have lt: "c1 < c2" using xy by (auto simp: c1' c2')
  have x0: "0 \<le> x" "0 \<le> y" using b(1) by (simp_all add: c1')
  have st: "selectedText d sel = drop (nat c1) (take (nat c2) ?L)"
    using getRange_in_line [OF vf vt] by (simp add: selectedText_def fr to c1' c2')
  have len: "int (length (selectedText d sel)) = c2 - c1"
    using b lt by (simp add: st)
  have buf: "replaceRange (replaceRange d (LF # preferredToken @ [LF]) (Pos n c2) None)
               (LF # preferredToken @ [LF]) (Pos n c1) None = d'"
    using codeBlock_buffer [OF il _ le b(2) t] pos c1 by (simp add: d' st)
  define newSelection where "newSelection = updFrom (setCh 0) (updFrom (addLine 2)
            (updTo (addCh (- min x y)) (updTo (addLine 2) (Range (Pos n x) (Pos n y)))))"
  have step: "codeBlockStep preferredToken d sel = (d', newSelection, 4)"
    using pos ne buf one
    by (simp add: codeBlockStep_def Let_def fr to c1' [symmetric] c2' [symmetric] c1 [symmetric]
        newSelection_def sel [symmetric] a [symmetric] h [symmetric])
  have ins: "insertCodeBlock preferredToken d [sel] = (d', [newSelection])"
    by (simp add: insertCodeBlock_def step)
  from codeBlock_selection [OF xy x0, of n] obtain ca ch' where
    r: "newSelection = Range (Pos (n + 2) ca) (Pos (n + 2) ch')"
    and c: "ca = 0 \<and> \<bar>x - y\<bar> \<le> ch' \<or> ch' = 0 \<and> \<bar>x - y\<bar> \<le> ca"
    unfolding newSelection_def by blast
  have ab: "\<bar>x - y\<bar> = c2 - c1" by (auto simp: c1' c2')
  have nl: "0 \<le> n" "nat n < length d" using il by (auto simp: isLine_def)
  have il': "isLine d' (n + 2)"
    using nl by (auto simp: d' isLine_def)
  have "d' ! nat (n + 2) = selectedText d sel"
    using nl by (simp add: d' nth_append nat_add_distrib)
  then have lt': "int (length (lineText d' (n + 2))) = c2 - c1"
    using lineText_nth [OF il'] len by simp
  from installed_span [OF il' lt' _ r] c lt obtain installed where
    "setSelections d' [newSelection] = [installed]" "rangeFrom installed = Pos (n + 2) 0"
    "rangeTo installed = Pos (n + 2) (c2 - c1)"
    unfolding ab by auto
  with ins len show ?thesis by auto
qed

text \<open>The theorem at the word \<open>hello\<close> selected in the second line of a buffer.\<close>

theorem insertCodeBlock_witness:
  "validRange [''intro'', ''say hello world''] (Range (Pos 1 4) (Pos 1 9)) \<and> \<not> rangeEmpty (Range (Pos 1 4) (Pos 1 9)) \<and> line (rangeFrom (Range (Pos 1 4) (Pos 1 9))) = line (rangeTo (Range (Pos 1 4) (Pos 1 9)))
   \<and> 0 < ch (rangeFrom (Range (Pos 1 4) (Pos 1 9))) \<and> noBreak ''```''
   \<and> (\<exists>newSelection installed.
         insertCodeBlock ''```'' [''intro'', ''say hello world''] [(Range (Pos 1 4) (Pos 1 9))]
           = ([''intro'', ''say '', ''```'', ''hello'', ''```'', '' world''], [newSelection])
         \<and> setSelections [''intro'', ''say '', ''```'', ''hello'', ''```'', '' world''] [newSelection]
             = [installed]
         \<and> rangeFrom installed = Pos 3 0 \<and> rangeTo installed = Pos 3 5)"
proof -
  have v: "validRange [''intro'', ''say hello world''] (Range (Pos 1 4) (Pos 1 9))" by code_simp
  have ne: "\<not> rangeEmpty (Range (Pos 1 4) (Pos 1 9))" by code_simp
  have one: "line (rangeFrom (Range (Pos 1 4) (Pos 1 9))) = line (rangeTo (Range (Pos 1 4) (Pos 1 9)))" by code_simp
  have pos: "0 < ch (rangeFrom (Range (Pos 1 4) (Pos 1 9)))" by code_simp
  have t: "noBreak ''```''" by code_simp
  note th = insertCodeBlock_wraps_selection [OF v ne one pos t refl refl refl refl]
  have e: "take (nat (line (rangeFrom (Range (Pos 1 4) (Pos 1 9))))) [''intro'', ''say hello world'']
           @ [take (nat (ch (rangeFrom (Range (Pos 1 4) (Pos 1 9))))) (lineText [''intro'', ''say hello world''] (line (rangeFrom (Range (Pos 1 4) (Pos 1 9))))), ''```'',
              selectedText [''intro'', ''say hello world''] (Range (Pos 1 4) (Pos 1 9)), ''```'',
              drop (nat (ch (rangeTo (Range (Pos 1 4) (Pos 1 9))))) (lineText [''intro'', ''say hello world''] (line (rangeFrom (Range (Pos 1 4) (Pos 1 9)))))]
           @ drop (nat (line (rangeFrom (Range (Pos 1 4) (Pos 1 9)))) + 1) [''intro'', ''say hello world'']
         = [''intro'', ''say '', ''```'', ''hello'', ''```'', '' world'']"
    by code_simp
  have n2: "line (rangeFrom (Range (Pos 1 4) (Pos 1 9))) + 2 = 3" by code_simp
  have l: "int (length (selectedText [''intro'', ''say hello world''] (Range (Pos 1 4) (Pos 1 9)))) = 5" by code_simp
  show ?thesis
    using th unfolding e n2 l by (intro conjI v ne one pos t)
qed

section \<open>Ordered lists\<close>

text \<open>
  What the scan below a toggled line does to the lines it meets, written on the list of
  these lines: as long as a line is an ordered-list item, its digits are replaced by the
  next number, counted up from \<open>k\<close>; the first line that is no item ends the scan, and
  it and the lines after it stay. The loop \<^verbatim>\<open>processNextLinesOfOrderedList\<close> of the
  source is shown to do this (\<open>processLoop_renumbered\<close>).
\<close>

fun renumbered :: "number \<Rightarrow> string list \<Rightarrow> string list" where
  "renumbered k [] = []"
| "renumbered k (l # ls) =
     (if matchOrdered l \<noteq> None
      then (numberToString (plusOne k) @ dropWhile isDigit l) # renumbered (plusOne k) ls
      else l # ls)"

lemma isDigit_not_dot: "isDigit c \<Longrightarrow> c \<noteq> CHR ''.''"
  by (auto simp: isDigit_def)

lemma matchOrdered_shape:
  assumes "matchOrdered l = Some m"
  shows "dotPos l = int (length (takeWhile isDigit l))"
    and "drop (nat (dotPos l)) l = dropWhile isDigit l"
    and "take (nat (dotPos l)) l = takeWhile isDigit l"
    and "l \<noteq> []"
proof -
  let ?ds = "takeWhile isDigit l" and ?r = "dropWhile isDigit l"
  from assms have r: "?r \<noteq> []" "hd ?r = CHR ''.''"
    by (auto simp: matchOrdered_def Let_def split: if_splits)
  then obtain r' where r': "?r = CHR ''.'' # r'" by (cases ?r) auto
  have l: "?ds @ CHR ''.'' # r' = l"
    using takeWhile_dropWhile_id [of isDigit l] unfolding r' .
  have a: "x \<noteq> CHR ''.''" if "x \<in> set ?ds" for x
    using set_takeWhileD [OF that] by (rule conjE) (rule isDigit_not_dot)
  have "takeWhile (\<lambda>c. c \<noteq> CHR ''.'') (?ds @ CHR ''.'' # r')
      = ?ds @ takeWhile (\<lambda>c. c \<noteq> CHR ''.'') (CHR ''.'' # r')"
    by (rule takeWhile_append2) (rule a)
  then have "takeWhile (\<lambda>c. c \<noteq> CHR ''.'') (?ds @ CHR ''.'' # r') = ?ds"
    by simp
  then have tw: "takeWhile (\<lambda>c. c \<noteq> CHR ''.'') l = ?ds" unfolding l .
  have "CHR ''.'' \<in> set (?ds @ CHR ''.'' # r')" by simp
  then have "CHR ''.'' \<in> set l" unfolding l .
  then show dp: "dotPos l = int (length ?ds)" by (simp add: dotPos_def tw)
  show "drop (nat (dotPos l)) l = ?r"
    unfolding dp by (simp add: dropWhile_eq_drop [symmetric])
  show "take (nat (dotPos l)) l = ?ds"
    unfolding dp by (simp add: takeWhile_eq_take [symmetric])
  show "l \<noteq> []" using r(1) by auto
qed

lemma noBreak_numberToString: "noBreak (numberToString x)"
  using numberToString_no_break [of x] by (simp add: noBreak_def)

lemma processLoop_renumbered:
  "0 \<le> n \<Longrightarrow> n \<le> int (length d) \<Longrightarrow>
   processLoop d k n = take (nat n) d @ renumbered k (drop (nat n) d)"
proof (induction d k n rule: processLoop.induct)
  case (1 d k n)
  show ?case
  proof (cases "n = int (length d)")
    case True
    then have "getLine d n = None" by (simp add: getLine_def isLine_def)
    then show ?thesis using True by (subst processLoop.simps) simp
  next
    case False
    with "1.prems" have il: "isLine d n" by (simp add: isLine_def)
    then have nl: "nat n < length d" by (auto simp: isLine_def)
    let ?l = "lineText d n"
    have gl: "getLine d n = Some ?l" using il by (rule getLine_Some)
    have ln: "?l = d ! nat n" using il by (rule lineText_nth)
    have dr: "drop (nat n) d = ?l # drop (nat n + 1) d"
      using nl ln by (simp add: Cons_nth_drop_Suc)
    show ?thesis
    proof (cases "matchOrdered ?l")
      case None
      have "take (nat n) d @ renumbered k (drop (nat n) d) = take (nat n) d @ drop (nat n) d"
        unfolding dr using None by simp
      then have "take (nat n) d @ renumbered k (drop (nat n) d) = d" by simp
      moreover have "processLoop d k n = d"
        using gl None by (subst processLoop.simps) simp
      ultimately show ?thesis by simp
    next
      case (Some m)
      note sh = matchOrdered_shape [OF Some]
      have cond: "?l \<noteq> [] \<and> matchOrdered ?l \<noteq> None" using Some sh(4) by simp
      let ?new = "numberToString (plusOne k) @ dropWhile isDigit ?l"
      have dpl: "0 \<le> dotPos ?l" "dotPos ?l \<le> int (length ?l)"
        using sh(1) by (simp_all add: length_takeWhile_le)
      have rr: "replaceRange d (numberToString (plusOne k)) (Pos n 0) (Some (Pos n (dotPos ?l)))
          = d[nat n := ?new]"
        using replaceRange_line [OF il noBreak_numberToString order_refl dpl] sh(2) by simp
      have ih: "processLoop (d[nat n := ?new]) (plusOne k) (n + 1)
          = take (nat (n + 1)) (d[nat n := ?new])
            @ renumbered (plusOne k) (drop (nat (n + 1)) (d[nat n := ?new]))"
        using "1.IH" [OF gl cond] "1.prems" nl unfolding rr by simp
      have n1: "nat (n + 1) = Suc (nat n)" using "1.prems" by simp
      have "processLoop d k n
          = processLoop (replaceRange d (numberToString (plusOne k)) (Pos n 0)
                           (Some (Pos n (dotPos ?l))))
              (plusOne k) (n + 1)"
        by (subst processLoop.simps) (simp add: gl cond)
      then have "processLoop d k n = processLoop (d[nat n := ?new]) (plusOne k) (n + 1)"
        unfolding rr .
      also have "\<dots> = take (nat n) d @ ?new # renumbered (plusOne k) (drop (nat n + 1) d)"
        unfolding ih n1 using nl by (simp add: take_Suc_conv_app_nth)
      also have "\<dots> = take (nat n) d @ renumbered k (drop (nat n) d)"
        unfolding dr using Some by simp
      finally show ?thesis .
    qed
  qed
qed

lemma length_renumbered [simp]: "length (renumbered k ls) = length ls"
  by (induction ls arbitrary: k) auto

text \<open>Below \<open>2^53\<close> the numbers count up by one and are printed with all their
  digits.\<close>

lemma plusOne_small: "n + 1 < 2 ^ 53 \<Longrightarrow> plusOne (Num n) = Num (n + 1)"
  by (simp add: plusOne_def roundDouble_def)

lemma numberToString_small: "n < 2 ^ 53 \<Longrightarrow> numberToString (Num n) = decimal n"
  by (simp add: numberToString_def)

lemma toNumber_small: "decimalValue s < 2 ^ 53 \<Longrightarrow> toNumber s = Num (decimalValue s)"
  by (simp add: toNumber_def roundDouble_def)

lemma renumbered_run:
  "j < length ls \<Longrightarrow> \<forall>i\<le>j. matchOrdered (ls ! i) \<noteq> None \<Longrightarrow> k + int j + 1 < 2 ^ 53 \<Longrightarrow>
   renumbered (Num k) ls ! j = decimal (k + int j + 1) @ dropWhile isDigit (ls ! j)"
proof (induction ls arbitrary: k j)
  case Nil
  then show ?case by simp
next
  case (Cons l ls)
  from Cons.prems(2) have m: "matchOrdered l \<noteq> None" by force
  have k1: "k + 1 < 2 ^ 53" using Cons.prems(3) by simp
  note p = plusOne_small [OF k1]
  show ?case
  proof (cases j)
    case 0
    then show ?thesis using m p numberToString_small [OF k1] by simp
  next
    case (Suc j')
    have a: "\<forall>i\<le>j'. matchOrdered (ls ! i) \<noteq> None"
      using Cons.prems(2) Suc by force
    have b: "k + 1 + int j' + 1 < 2 ^ 53" using Cons.prems(3) Suc by simp
    have c: "j' < length ls" using Cons.prems(1) Suc by simp
    from Cons.IH [OF c a b] m p Suc show ?thesis by (simp add: add.commute add.left_commute)
  qed
qed

lemma renumbered_stop:
  "j < length ls \<Longrightarrow> matchOrdered (ls ! j) = None \<Longrightarrow> j \<le> i \<Longrightarrow> i < length ls \<Longrightarrow>
   renumbered k ls ! i = ls ! i"
proof (induction ls arbitrary: k j i)
  case Nil
  then show ?case by simp
next
  case (Cons l ls)
  show ?case
  proof (cases "matchOrdered l")
    case None
    then show ?thesis by simp
  next
    case (Some m)
    with Cons.prems obtain j' where j: "j = Suc j'" by (cases j) auto
    with Cons.prems obtain i' where i: "i = Suc i'" by (cases i) auto
    from Cons.IH [of j' i' "plusOne k"] Cons.prems Some j i show ?thesis by simp
  qed
qed

lemma lineLoop_single:
  assumes one: "line (rangeFrom sel) = n" "line (rangeTo sel) = n" and il: "isLine d n"
    and rf: "replaceFn d (lineText d n) n = (new, d1)"
    and d1: "isLine d1 n" "lineText d1 n = lineText d n" and nb: "noBreak new"
  shows "\<exists>shiftFrom shiftTo. lineLoop replaceFn sel d n 0 0 = Some (d1[nat n := new], shiftFrom, shiftTo)"
proof -
  have rr: "replaceRange d1 new (Pos n 0) (Some (Pos n (int (length (lineText d n))))) = d1[nat n := new]"
    using replaceRange_whole_line [OF d1(1) nb] d1(2) by simp
  have 2: "lineLoop replaceFn sel (d1[nat n := new]) (n + 1) x y = Some (d1[nat n := new], x, y)" for x y
    using one by (subst lineLoop.simps) simp
  show ?thesis
    by (subst lineLoop.simps) (simp add: one getLine_Some [OF il] rf rr 2)
qed

lemma processLoop_below:
  assumes il: "isLine d n"
  shows "processLoop d k (n + 1) = take (nat n + 1) d @ renumbered k (drop (nat n + 1) d)"
    and "isLine (processLoop d k (n + 1)) n"
    and "lineText (processLoop d k (n + 1)) n = lineText d n"
    and "(processLoop d k (n + 1))[nat n := new]
         = take (nat n) d @ new # renumbered k (drop (nat n + 1) d)"
proof -
  have nl: "0 \<le> n" "nat n < length d" using il by (auto simp: isLine_def)
  have n1: "nat (n + 1) = nat n + 1" using nl by simp
  show p: "processLoop d k (n + 1) = take (nat n + 1) d @ renumbered k (drop (nat n + 1) d)"
    using processLoop_renumbered [of "n + 1" d k] nl by (simp add: n1)
  have len: "length (processLoop d k (n + 1)) = length d"
    unfolding p using nl by simp
  show il': "isLine (processLoop d k (n + 1)) n"
    using il by (simp add: isLine_def len)
  have "processLoop d k (n + 1) ! nat n = d ! nat n"
    unfolding p using nl by (simp add: nth_append)
  then show "lineText (processLoop d k (n + 1)) n = lineText d n"
    using lineText_nth [OF il'] lineText_nth [OF il] by simp
  show "(processLoop d k (n + 1))[nat n := new]
         = take (nat n) d @ new # renumbered k (drop (nat n + 1) d)"
    unfolding p using nl by (simp add: list_update_append take_Suc_conv_app_nth)
qed

lemma properDoc_line: "properDoc d \<Longrightarrow> isLine d n \<Longrightarrow> noBreak (lineText d n)"
  by (auto simp: properDoc_def lineText_nth isLine_def list_all_length)

lemma noBreak_drop: "noBreak l \<Longrightarrow> noBreak (drop m l)"
  by (rule noBreak_suffix [OF suffix_drop])

lemma renumbered_facts:
  "length (renumbered (Num k) ls) = length ls
   \<and> (\<forall>j<length ls. (\<forall>i\<le>j. matchOrdered (ls ! i) \<noteq> None) \<longrightarrow> k + int j + 1 < 2 ^ 53 \<longrightarrow>
          renumbered (Num k) ls ! j = decimal (k + int j + 1) @ dropWhile isDigit (ls ! j))
   \<and> (\<forall>j<length ls. matchOrdered (ls ! j) = None \<longrightarrow>
          (\<forall>i<length ls. j \<le> i \<longrightarrow> renumbered (Num k) ls ! i = ls ! i))"
  using renumbered_run renumbered_stop by (intro conjI allI impI length_renumbered) blast+

text \<open>
  Claim C2, as amended: when the line \<open>n\<close> of a selection that lies on that one line
  starts with an ordered-list marker (\<open>m\<close> characters: the digits, the dot and the
  blanks), \<^verbatim>\<open>toggleOrderedList\<close> takes the marker off and numbers the ordered-list
  lines that follow without a gap 1, 2, 3, ...: the list starts again below the line. It
  does not give them their former number minus one. The other three conjuncts say what
  \<open>renumbered\<close> is, line by line. (The counter is a JavaScript number, which counts by
  one up to \<open>2^53\<close>: that many lines no buffer has.)
\<close>

theorem toggleOrderedList_strips_and_restarts:
  assumes pd: "properDoc d" and v: "validRange d sel"
    and one: "line (rangeFrom sel) = n" "line (rangeTo sel) = n"
    and m: "matchOrdered (lineText d n) = Some m"
  shows "(\<exists>sels'. toggleOrderedList d [sel]
            = Some (take (nat n) d @ drop m (lineText d n) # renumbered (Num 0) (drop (nat n + 1) d), sels'))
     \<and> length (renumbered (Num 0) ls) = length ls
     \<and> (\<forall>j<length ls. (\<forall>i\<le>j. matchOrdered (ls ! i) \<noteq> None) \<longrightarrow> j + 1 < 2 ^ 53 \<longrightarrow>
            renumbered (Num 0) ls ! j = showNat (j + 1) @ dropWhile isDigit (ls ! j))
     \<and> (\<forall>j<length ls. matchOrdered (ls ! j) = None \<longrightarrow>
            (\<forall>i<length ls. j \<le> i \<longrightarrow> renumbered (Num 0) ls ! i = ls ! i))"
proof -
  have il: "isLine d n"
    using validRange_ends(1) [OF v] one by (simp add: validPos_def)
  let ?L = "lineText d n"
  let ?d1 = "processLoop d (Num 0) (n + 1)"
  have rf: "orderedRewrite d ?L n = (drop m ?L, ?d1)"
    by (simp add: orderedRewrite_def m processNextLinesOfOrderedList_def)
  have nb: "noBreak (drop m ?L)"
    using properDoc_line [OF pd il] by (rule noBreak_drop)
  note pl = processLoop_below [OF il, of "Num 0"]
  from lineLoop_single [where replaceFn = orderedRewrite, OF one il rf pl(2) pl(3) nb]
  obtain sf st where "lineLoop orderedRewrite sel d n 0 0 = Some (?d1[nat n := drop m ?L], sf, st)"
    by blast
  then have 1: "\<exists>sels'. toggleOrderedList d [sel]
            = Some (take (nat n) d @ drop m ?L # renumbered (Num 0) (drop (nat n + 1) d), sels')"
    unfolding pl(4) by (simp add: toggleOrderedList_def replaceTokenAtLineStart_def one)
  have 2: "renumbered (Num 0) ls ! j = showNat (j + 1) @ dropWhile isDigit (ls ! j)"
    if "j < length ls" "\<forall>i\<le>j. matchOrdered (ls ! i) \<noteq> None" "j + 1 < 2 ^ 53" for j
  proof -
    have "int (j + 1) < int (2 ^ 53)" using that(3) by (simp only: of_nat_less_iff)
    then have "0 + int j + 1 < (2::int) ^ 53" by simp
    from renumbered_run [OF that(1,2) this] show ?thesis by (simp add: showNat_def add.commute)
  qed
  from 1 2 renumbered_facts [of 0 ls] show ?thesis by blast
qed

text \<open>The theorem at a list of three items between other lines.\<close>

theorem toggleOrderedList_restart_witness:
  "properDoc [''x'', ''3. a'', ''4. b'', ''5. c'', ''y'', ''9. z'']
   \<and> validRange [''x'', ''3. a'', ''4. b'', ''5. c'', ''y'', ''9. z''] (Shared (Pos 1 2))
   \<and> matchOrdered (lineText [''x'', ''3. a'', ''4. b'', ''5. c'', ''y'', ''9. z''] 1) = Some 3
   \<and> (\<exists>sels'. toggleOrderedList [''x'', ''3. a'', ''4. b'', ''5. c'', ''y'', ''9. z''] [Shared (Pos 1 2)]
          = Some ([''x'', ''a'', ''1. b'', ''2. c'', ''y'', ''9. z''], sels'))"
proof -
  let ?D = "[''x'', ''3. a'', ''4. b'', ''5. c'', ''y'', ''9. z'']"
  have pd: "properDoc ?D" by code_simp
  have v: "validRange ?D (Shared (Pos 1 2))" by code_simp
  have one: "line (rangeFrom (Shared (Pos 1 2))) = 1" "line (rangeTo (Shared (Pos 1 2))) = 1"
    by code_simp+
  have m: "matchOrdered (lineText ?D 1) = Some 3" by code_simp
  have e: "take (nat 1) ?D @ drop 3 (lineText ?D 1) # renumbered (Num 0) (drop (nat 1 + 1) ?D)
      = [''x'', ''a'', ''1. b'', ''2. c'', ''y'', ''9. z'']"
    by code_simp
  have "\<exists>sels'. toggleOrderedList ?D [Shared (Pos 1 2)]
          = Some ([''x'', ''a'', ''1. b'', ''2. c'', ''y'', ''9. z''], sels')"
    using toggleOrderedList_strips_and_restarts [OF pd v one m, of "[]"] unfolding e
    by (rule conjunct1)
  then show ?thesis by (intro conjI pd v m)
qed

text \<open>Claim C2 as stated fails at its own example: below the stripped line the code
  writes \<open>1.\<close> and \<open>2.\<close>, not \<open>3.\<close> and \<open>4.\<close>.\<close>

theorem toggleOrderedList_example_of_the_claim:
  "toggleOrderedList [''3. a'', ''4. b'', ''5. c''] [Shared (Pos 0 0)]
     = Some ([''a'', ''1. b'', ''2. c''], [Shared (Pos 0 (- 3))])
   \<and> [''a'', ''1. b'', ''2. c''] \<noteq> [''a'', ''3. b'', ''4. c'']"
  by code_simp

lemma noBreak_dot_space: "noBreak ''. ''"
  by (simp add: noBreak_def LF_def CR_def)

lemma decimalValue_nonneg: "0 \<le> decimalValue s"
proof -
  have "0 \<le> a \<Longrightarrow> 0 \<le> foldl (\<lambda>n c. 10 * n + int (digitValue c)) a s" for a
    by (induction s arbitrary: a) simp_all
  then show ?thesis by (simp add: decimalValue_def)
qed

text \<open>
  Claim C6, as amended: when the line \<open>n\<close> of a selection that lies on that one line
  does not start with an ordered-list marker, \<^verbatim>\<open>toggleOrderedList\<close> puts the marker of
  the number \<open>k\<close> before it, in place of a bullet marker if the line has one, where
  \<open>k\<close> is 1 when there is no line above or the line above is no ordered-list item, and
  the number of the line above plus 1 otherwise; the ordered-list lines that follow
  without a gap are numbered \<open>k + 1\<close>, \<open>k + 2\<close>, ... This is so as long as the
  numbers are below \<open>2^53\<close>, where the JavaScript numbers of the source count by one.
\<close>

theorem toggleOrderedList_numbers_line:
  assumes pd: "properDoc d" and v: "validRange d sel"
    and one: "line (rangeFrom sel) = n" "line (rangeTo sel) = n"
    and m: "matchOrdered (lineText d n) = None"
    and k: "k = (case getLine d (n - 1) of
                   None \<Rightarrow> 1
                 | Some p \<Rightarrow> if matchOrdered p = None then 1
                             else decimalValue (takeWhile isDigit p) + 1)"
    and safe: "k < 2 ^ 53"
    and body: "body = (case matchUnordered (lineText d n) of
                         None \<Rightarrow> lineText d n
                       | Some u \<Rightarrow> drop u (lineText d n))"
  shows "(\<exists>sels'. toggleOrderedList d [sel]
            = Some (take (nat n) d @ (decimal k @ ''. '' @ body) # renumbered (Num k) (drop (nat n + 1) d),
                    sels'))
     \<and> length (renumbered (Num k) ls) = length ls
     \<and> (\<forall>j<length ls. (\<forall>i\<le>j. matchOrdered (ls ! i) \<noteq> None) \<longrightarrow> k + int j + 1 < 2 ^ 53 \<longrightarrow>
            renumbered (Num k) ls ! j = decimal (k + int j + 1) @ dropWhile isDigit (ls ! j))
     \<and> (\<forall>j<length ls. matchOrdered (ls ! j) = None \<longrightarrow>
            (\<forall>i<length ls. j \<le> i \<longrightarrow> renumbered (Num k) ls ! i = ls ! i))"
proof -
  have il: "isLine d n"
    using validRange_ends(1) [OF v] one by (simp add: validPos_def)
  let ?L = "lineText d n"
  let ?d1 = "processLoop d (Num k) (n + 1)"
  have k': "(case getLine d (n - 1) of
               None \<Rightarrow> Num 1
             | Some p \<Rightarrow> if p = [] \<or> matchOrdered p = None then Num 1
                         else plusOne (toNumber (take (nat (dotPos p)) p))) = Num k"
  proof (cases "getLine d (n - 1)")
    case None
    then show ?thesis by (simp add: k)
  next
    case (Some p)
    show ?thesis
    proof (cases "matchOrdered p")
      case None
      then show ?thesis using Some by (simp add: k)
    next
      case (Some a)
      note sh = matchOrdered_shape(3,4) [OF Some]
      have kk: "k = decimalValue (takeWhile isDigit p) + 1"
        using Some \<open>getLine d (n - 1) = Some p\<close> by (simp add: k)
      then have "decimalValue (takeWhile isDigit p) < 2 ^ 53" using safe by simp
      from toNumber_small [OF this] plusOne_small [of "decimalValue (takeWhile isDigit p)"] safe kk
      have "plusOne (toNumber (takeWhile isDigit p)) = Num k" by simp
      then show ?thesis using sh Some \<open>getLine d (n - 1) = Some p\<close> by simp
    qed
  qed
  have rf: "orderedRewrite d ?L n = (decimal k @ ''. '' @ body, ?d1)"
    by (simp add: orderedRewrite_def m processNextLinesOfOrderedList_def k' Let_def body
        numberToString_small [OF safe] split: option.split)
  have nbL: "noBreak ?L" using pd il by (rule properDoc_line)
  have nbk: "noBreak (decimal k)"
    using noBreak_numberToString [of "Num k"] by (simp add: numberToString_small [OF safe])
  have "noBreak body"
    unfolding body using nbL noBreak_drop [OF nbL] by (simp split: option.split)
  then have nb: "noBreak (decimal k @ ''. '' @ body)"
    using nbk noBreak_dot_space by (simp only: noBreak_append simp_thms)
  note pl = processLoop_below [OF il, of "Num k"]
  from lineLoop_single [where replaceFn = orderedRewrite, OF one il rf pl(2) pl(3) nb]
  obtain sf st where
    "lineLoop orderedRewrite sel d n 0 0 = Some (?d1[nat n := decimal k @ ''. '' @ body], sf, st)"
    by blast
  then have "\<exists>sels'. toggleOrderedList d [sel]
            = Some (take (nat n) d @ (decimal k @ ''. '' @ body) # renumbered (Num k) (drop (nat n + 1) d),
                    sels')"
    unfolding pl(4) by (simp add: toggleOrderedList_def replaceTokenAtLineStart_def one)
  then show ?thesis
    using renumbered_facts [of k ls] by simp
qed

text \<open>The theorem at the claim's example, an empty line below \<^verbatim>\<open>1. a\<close> with two list
  items after it, and a bullet line turned into the first item of a list.\<close>

theorem toggleOrderedList_numbers_witness:
  "properDoc [''1. a'', [], ''7. b'', ''9. c'', ''x'']
   \<and> validRange [''1. a'', [], ''7. b'', ''9. c'', ''x''] (Shared (Pos 1 0))
   \<and> matchOrdered (lineText [''1. a'', [], ''7. b'', ''9. c'', ''x''] 1) = None
   \<and> (\<exists>sels'. toggleOrderedList [''1. a'', [], ''7. b'', ''9. c'', ''x''] [Shared (Pos 1 0)]
          = Some ([''1. a'', ''2. '', ''3. b'', ''4. c'', ''x''], sels'))
   \<and> (\<exists>sels'. toggleOrderedList [''- a'', ''8. b''] [Shared (Pos 0 0)]
          = Some ([''1. a'', ''2. b''], sels'))"
proof -
  let ?D = "[''1. a'', [], ''7. b'', ''9. c'', ''x'']"
  let ?k = "case getLine ?D (1 - 1) of
                   None \<Rightarrow> 1
                 | Some p \<Rightarrow> if matchOrdered p = None then 1
                             else decimalValue (takeWhile isDigit p) + 1"
  have pd: "properDoc ?D" by code_simp
  have v: "validRange ?D (Shared (Pos 1 0))" by code_simp
  have one: "line (rangeFrom (Shared (Pos 1 0))) = 1" "line (rangeTo (Shared (Pos 1 0))) = 1"
    by code_simp+
  have m: "matchOrdered (lineText ?D 1) = None" by code_simp
  have safe: "?k < 2 ^ 53" by code_simp
  have e: "take (nat 1) ?D
           @ (decimal ?k @ ''. ''
              @ (case matchUnordered (lineText ?D 1) of
                         None \<Rightarrow> lineText ?D 1
                       | Some u \<Rightarrow> drop u (lineText ?D 1)))
             # renumbered (Num ?k) (drop (nat 1 + 1) ?D)
      = [''1. a'', ''2. '', ''3. b'', ''4. c'', ''x'']"
    by code_simp
  have 1: "\<exists>sels'. toggleOrderedList ?D [Shared (Pos 1 0)]
          = Some ([''1. a'', ''2. '', ''3. b'', ''4. c'', ''x''], sels')"
    using toggleOrderedList_numbers_line [OF pd v one m refl safe refl, of "[]"] unfolding e
    by (rule conjunct1)
  have "toggleOrderedList [''- a'', ''8. b''] [Shared (Pos 0 0)]
          = Some ([''1. a'', ''2. b''], [Shared (Pos 0 1)])"
    by code_simp
  then have 2: "\<exists>sels'. toggleOrderedList [''- a'', ''8. b''] [Shared (Pos 0 0)]
          = Some ([''1. a'', ''2. b''], sels')" by blast
  show ?thesis by (intro conjI pd v m 1 2)
qed

text \<open>
  Claim C6 as it was written, for every number, does not hold of the code: the sum
  \<^verbatim>\<open>+prevLine.substring(0, dotPos) + 1\<close> is a double. Below the line
  \<^verbatim>\<open>10000000000000000. a\<close> (the number is above \<open>2^53\<close>, where the doubles are two
  apart) the new item gets the same number again, not the next one, and below
  \<^verbatim>\<open>1000000000000000000000. a\<close> it gets the marker \<^verbatim>\<open>1e+21. \<close>.
\<close>

theorem toggleOrderedList_beyond_exact_numbers:
  "toggleOrderedList [''10000000000000000. a'', []] [Shared (Pos 1 0)]
     = Some ([''10000000000000000. a'', ''10000000000000000. ''], [Shared (Pos 1 19)])
   \<and> decimal (decimalValue ''10000000000000000'' + 1) = ''10000000000000001''
   \<and> toggleOrderedList [''1000000000000000000000. a'', []] [Shared (Pos 1 0)]
     = Some ([''1000000000000000000000. a'', ''1e+21. ''], [Shared (Pos 1 7)])"
  by code_simp

section \<open>Toggling an inline token twice\<close>





lemma isLine_update [simp]: "isLine (d[m := Z]) n = isLine d n"
  by (simp add: isLine_def)







lemma addCh_Pos [simp]: "addCh k (Pos l c) = Pos l (c + k)"
  by (simp add: addCh_def Pos_def)




















end
